theory Spec2Isabelle
  imports Complex_Main "HOL-Library.Sublist"
begin

section \<open>CDLOD terrain: data model\<close>

text \<open>
  The development embeds \<^verbatim>\<open>src/cdlod.ts\<close> (the quadtree, the per-frame selection,
  the lifecycle of the chunk meshes) and the function \<^verbatim>\<open>getMorphValue\<close> of the
  vertex shader.  A TypeScript or GLSL \<^verbatim>\<open>number\<close>/\<^verbatim>\<open>float\<close> is read as a
  real number; integer-valued quantities (levels, band indices) are \<open>int\<close>.
\<close>

datatype Vector3 = Vector3 (vx: real) (vy: real) (vz: real)

datatype Vector2 = Vector2 real real

datatype Vector4 = Vector4 real real real real

text \<open>\<^verbatim>\<open>Vector3.Center\<close> and \<^verbatim>\<open>Vector3.Distance\<close> of the rendering library.\<close>

definition Center :: "Vector3 \<Rightarrow> Vector3 \<Rightarrow> Vector3" where
  "Center a b = Vector3 ((vx a + vx b) / 2) ((vy a + vy b) / 2) ((vz a + vz b) / 2)"

definition Distance :: "Vector3 \<Rightarrow> Vector3 \<Rightarrow> real" where
  "Distance a b =
     sqrt ((vx a - vx b) * (vx a - vx b) + (vy a - vy b) * (vy a - vy b)
           + (vz a - vz b) * (vz a - vz b))"

datatype BoundingBox = BoundingBox (minimum: Vector3) (maximum: Vector3)

text \<open>The \<^verbatim>\<open>center\<close> property of a bounding box: the midpoint of its two corners.\<close>

definition center :: "BoundingBox \<Rightarrow> Vector3" where
  "center bb = Center (minimum bb) (maximum bb)"

text \<open>
  A chunk of the quadtree.  Chunks are objects, compared by identity
  (\<^verbatim>\<open>new Set(chunksToRender)\<close>, \<^verbatim>\<open>renderSet.has(chunk)\<close>): \<open>uid\<close> is the identity of
  the object, the number of \<^verbatim>\<open>new Chunk\<close> calls made before its own.  The mutable
  field \<^verbatim>\<open>mesh\<close> lives in a store indexed by \<open>uid\<close> (see the record \<open>CDLOD\<close>);
  every other field is written once, by the constructor.
\<close>

datatype Chunk =
  Chunk (uid: nat) (boundingBox: BoundingBox) (lodLevel: int)
        (minHeight: real) (maxHeight: real) (children: "Chunk list")

subsection \<open>buildQuadtree\<close>

text \<open>The four boxes of the array \<^verbatim>\<open>boxes\<close>, in the order of the source.\<close>

definition boxes :: "real \<Rightarrow> BoundingBox \<Rightarrow> BoundingBox list" where
  "boxes terrainHeight bb =
     (let mn = minimum bb; mx = maximum bb; mid = Center mn mx in
      [BoundingBox (Vector3 (vx mn) 0 (vz mn)) (Vector3 (vx mid) terrainHeight (vz mid)),
       BoundingBox (Vector3 (vx mid) 0 (vz mn)) (Vector3 (vx mx) terrainHeight (vz mid)),
       BoundingBox (Vector3 (vx mn) 0 (vz mid)) (Vector3 (vx mid) terrainHeight (vz mx)),
       BoundingBox (Vector3 (vx mid) 0 (vz mid)) (Vector3 (vx mx) terrainHeight (vz mx))])"

text \<open>
  \<open>buildQuadtree terrainHeight boundingBox level n\<close> returns the chunk and the number of
  chunk objects allocated so far; \<open>n\<close> is that number on entry.  The parent is allocated
  before its children (\<^verbatim>\<open>new Chunk\<close> precedes the loop over \<^verbatim>\<open>boxes\<close>), the children
  in the order of \<^verbatim>\<open>boxes\<close>.
\<close>

function buildQuadtree :: "real \<Rightarrow> BoundingBox \<Rightarrow> int \<Rightarrow> nat \<Rightarrow> Chunk \<times> nat" where
  "buildQuadtree terrainHeight bb level n =
     (if level < 0 then (Chunk n bb 0 0 terrainHeight [], Suc n)
      else
        let (cs, n') =
              fold (\<lambda>box (cs, k).
                      let (c, k') = buildQuadtree terrainHeight box (level - 1) k
                      in (cs @ [c], k'))
                   (boxes terrainHeight bb) ([], Suc n)
        in (Chunk n bb level 0 terrainHeight cs, n'))"
  by pat_completeness auto
termination
  by (relation "measure (\<lambda>(th, bb, level, n). nat (level + 1))") auto

declare buildQuadtree.simps [simp del]

subsection \<open>The CDLOD object and its constructor\<close>

text \<open>
  \<^verbatim>\<open>ICDLODOptions\<close>: the two required fields and the optional ones (\<open>None\<close>: the
  caller left the field out).
\<close>

record ICDLODOptions =
  opt_terrainSize :: real
  opt_terrainHeight :: real
  opt_minLodDistance :: "real option"
  opt_lodLevels :: "int option"
  opt_subdivisions :: "real option"
  opt_showChunk :: "bool option"
  opt_showBoundingBox :: "bool option"

text \<open>
  The material of a chunk mesh: the uniforms bound by \<^verbatim>\<open>updateChunkMesh\<close> on the clone
  of the terrain shader, those inherited from the shader (\<open>u_terrainHeight\<close>,
  \<open>u_terrainSize\<close>) and \<open>u_mixFactor\<close>, which only \<^verbatim>\<open>setMixFactor\<close> binds.
  \<^verbatim>\<open>setVector3("cameraPosition", camera.position)\<close> hands the engine the \<^verbatim>\<open>Vector3\<close>
  object itself, and the engine keeps it: \<open>u_cameraPosition\<close> is the identity of that
  object, and the shader reads the coordinates the object holds when the mesh is
  rendered.  The other vectors are objects made for the call, and \<^verbatim>\<open>lodRanges\<close> is never
  written after the constructor, so for them the value bound is the value read.
\<close>

record ShaderMaterial =
  wireframe :: bool
  u_terrainHeight :: real
  u_terrainSize :: real
  u_uvOffset :: Vector2
  u_uvScale :: Vector2
  u_chunkColor :: "Vector4 option"
  u_mesh_dim :: real
  u_lodLevel :: int
  u_lodRangesLUT :: "real list"
  u_cameraPosition :: nat
  u_mixFactor :: "real option"

record Mesh =
  scaling_x :: real
  scaling_z :: real
  mesh_position :: Vector3
  material :: ShaderMaterial
  mesh_showBoundingBox :: bool

text \<open>
  The camera as a call of the core finds it: the identity of the \<^verbatim>\<open>Vector3\<close> object
  that \<^verbatim>\<open>camera.position\<close> refers to, the coordinates that object holds during the call,
  and the outcome of the library's frustum test
  \<^verbatim>\<open>boundingBox.isInFrustum(Frustum.GetPlanes(camera.getTransformationMatrix()))\<close> for
  every box.  A camera that the engine moves in place keeps its \<open>position_ref\<close> from
  one call to the next; another camera, or a camera given a new position object, has
  another one.
\<close>

record FreeCamera =
  position_ref :: nat
  position :: Vector3
  isInFrustum :: "BoundingBox \<Rightarrow> bool"

text \<open>Calls into the engine that create or destroy a patch instance, by chunk identity.\<close>

datatype engine_call = Clone nat | Dispose nat

text \<open>
  The object state.  \<open>mesh s u\<close> is the field \<^verbatim>\<open>mesh\<close> of the chunk of identity \<open>u\<close>
  (\<open>None\<close>: \<^verbatim>\<open>null\<close>); \<open>calls\<close> is the trace of \<^verbatim>\<open>baseGrid.clone\<close> and
  \<^verbatim>\<open>mesh.dispose\<close> calls.  \<^verbatim>\<open>baseGrid\<close> is a \<^verbatim>\<open>Mesh\<close> object from the constructor
  on, so the test \<^verbatim>\<open>this.baseGrid\<close> is true and has no field here.
\<close>

record CDLOD =
  showChunk :: bool
  showBoundingBox :: bool
  rootChunk :: Chunk
  lodRanges :: "real list"
  lodLevels :: int
  terrainSize :: real
  terrainHeight :: real
  subdivisions :: real
  mesh :: "nat \<Rightarrow> Mesh option"
  calls :: "engine_call list"

text \<open>
  The loop \<^verbatim>\<open>for (let i = 0; i < this.lodLevels; i++) this.lodRanges[i] = ...\<close>.  The array
  starts empty and \<open>i\<close> starts at 0, so each store is at the index equal to the current
  length and extends the array by one element.
\<close>

function lodRanges_loop :: "int \<Rightarrow> int \<Rightarrow> real \<Rightarrow> real list \<Rightarrow> real list" where
  "lodRanges_loop i n minLodDistance rs =
     (if i < n then lodRanges_loop (i + 1) n minLodDistance (rs @ [minLodDistance * 2 ^ nat i])
      else rs)"
  by pat_completeness auto
termination
  by (relation "measure (\<lambda>(i, n, m, rs). nat (n - i))") auto

declare lodRanges_loop.simps [simp del]

definition CDLOD_constructor :: "ICDLODOptions \<Rightarrow> CDLOD" where
  "CDLOD_constructor options =
     (let config_lodLevels = (case opt_lodLevels options of None \<Rightarrow> 7 | Some n \<Rightarrow> n);
          config_subdivisions = (case opt_subdivisions options of None \<Rightarrow> 32 | Some d \<Rightarrow> d);
          config_showChunk = (case opt_showChunk options of None \<Rightarrow> False | Some b \<Rightarrow> b);
          config_showBoundingBox =
            (case opt_showBoundingBox options of None \<Rightarrow> False | Some b \<Rightarrow> b);
          config_minLodDistance =
            (case opt_minLodDistance options of
               None \<Rightarrow> opt_terrainSize options / 15
             | Some m \<Rightarrow> if m = 0 then opt_terrainSize options / 15 else m);
          ts = opt_terrainSize options;
          bb = BoundingBox (Vector3 (- ts * 0.5) (- ts * 0.5) (- ts * 0.5))
                           (Vector3 (ts * 0.5) (ts * 0.5) (ts * 0.5))
      in \<lparr>showChunk = config_showChunk,
          showBoundingBox = config_showBoundingBox,
          rootChunk = fst (buildQuadtree (opt_terrainHeight options) bb config_lodLevels 0),
          lodRanges = lodRanges_loop 0 config_lodLevels config_minLodDistance [],
          lodLevels = config_lodLevels,
          terrainSize = ts,
          terrainHeight = opt_terrainHeight options,
          subdivisions = config_subdivisions,
          mesh = (\<lambda>u. None),
          calls = []\<rparr>)"

subsection \<open>Selection\<close>

text \<open>
  Reading a JavaScript array: an index outside the array gives \<^verbatim>\<open>undefined\<close>, here
  \<open>None\<close>.
\<close>

definition array_get :: "'a list \<Rightarrow> int \<Rightarrow> 'a option" where
  "array_get xs i = (if 0 \<le> i \<and> i < int (length xs) then Some (xs ! nat i) else None)"

text \<open>
  \<^verbatim>\<open>distance3D < this.lodRanges[lodLevel]\<close>: a comparison with \<^verbatim>\<open>undefined\<close> is false.
\<close>

definition isChunkWithinLodRange :: "CDLOD \<Rightarrow> Chunk \<Rightarrow> FreeCamera \<Rightarrow> int \<Rightarrow> bool" where
  "isChunkWithinLodRange s chunk camera lodLvl =
     (let distance3D = Distance (center (boundingBox chunk)) (position camera)
      in case array_get (lodRanges s) lodLvl of
           None \<Rightarrow> False
         | Some r \<Rightarrow> distance3D < r)"

definition frustumIntersect :: "Chunk \<Rightarrow> FreeCamera \<Rightarrow> bool" where
  "frustumIntersect chunk camera = isInFrustum camera (boundingBox chunk)"

fun traverseAndSelect :: "CDLOD \<Rightarrow> Chunk \<Rightarrow> int \<Rightarrow> FreeCamera \<Rightarrow> Chunk list \<Rightarrow> Chunk list" where
  "traverseAndSelect s (Chunk u bb l mn mx cs) lodLvl camera drawList =
     (if \<not> frustumIntersect (Chunk u bb l mn mx cs) camera then drawList
      else if \<not> isChunkWithinLodRange s (Chunk u bb l mn mx cs) camera lodLvl
      then drawList @ [Chunk u bb l mn mx cs]
      else fold (\<lambda>child dl. traverseAndSelect s child (lodLvl - 1) camera dl) cs drawList)"

definition selectLods :: "CDLOD \<Rightarrow> FreeCamera \<Rightarrow> Chunk list" where
  "selectLods s camera = traverseAndSelect s (rootChunk s) (lodLevels s - 1) camera []"

subsection \<open>Chunk meshes\<close>

definition lodColors :: "Vector4 list" where
  "lodColors =
     [Vector4 1 0 0 1, Vector4 1 0.5 0 1, Vector4 1 1 0 1, Vector4 0 1 0 1,
      Vector4 0 1 1 1, Vector4 0 0 1 1, Vector4 0.5 0 1 1, Vector4 1 0 1 1]"

text \<open>The remainder operator of JavaScript: the sign of the result is that of the dividend.\<close>

definition js_rem :: "int \<Rightarrow> int \<Rightarrow> int" where
  "js_rem a b = sgn a * (\<bar>a\<bar> mod \<bar>b\<bar>)"

definition updateChunkMesh :: "Chunk \<Rightarrow> FreeCamera \<Rightarrow> CDLOD \<Rightarrow> CDLOD" where
  "updateChunkMesh chunk camera s =
     (case mesh s (uid chunk) of
        Some m \<Rightarrow> s
      | None \<Rightarrow>
          let bb = boundingBox chunk;
              width = vx (maximum bb) - vx (minimum bb);
              height = vz (maximum bb) - vz (minimum bb);
              centerX = (vx (maximum bb) + vx (minimum bb)) * 0.5;
              centerZ = (vz (maximum bb) + vz (minimum bb)) * 0.5;
              uvOffset = Vector2 ((vx (minimum bb) + terrainSize s * 0.5) / terrainSize s)
                                 ((vz (minimum bb) + terrainSize s * 0.5) / terrainSize s);
              uvScale = Vector2 (width / terrainSize s) (height / terrainSize s);
              color = array_get lodColors (js_rem (lodLevel chunk) (int (length lodColors)));
              chunkMat = \<lparr>wireframe = showChunk s,
                          u_terrainHeight = terrainHeight s,
                          u_terrainSize = terrainSize s,
                          u_uvOffset = uvOffset,
                          u_uvScale = uvScale,
                          u_chunkColor = color,
                          u_mesh_dim = subdivisions s,
                          u_lodLevel = lodLevel chunk,
                          u_lodRangesLUT = lodRanges s,
                          u_cameraPosition = position_ref camera,
                          u_mixFactor = None\<rparr>;
              m = \<lparr>scaling_x = width,
                   scaling_z = height,
                   mesh_position = Vector3 centerX 0 centerZ,
                   material = chunkMat,
                   mesh_showBoundingBox = showBoundingBox s\<rparr>
          in s\<lparr>mesh := (mesh s)(uid chunk := Some m),
                calls := calls s @ [Clone (uid chunk)]\<rparr>)"

fun disposeUnusedMeshes :: "Chunk \<Rightarrow> nat set \<Rightarrow> CDLOD \<Rightarrow> CDLOD" where
  "disposeUnusedMeshes (Chunk u bb l mn mx cs) renderSet s =
     (let s1 = (if u \<notin> renderSet
                then (case mesh s u of
                        Some m \<Rightarrow> s\<lparr>mesh := (mesh s)(u := None), calls := calls s @ [Dispose u]\<rparr>
                      | None \<Rightarrow> s)
                else s)
      in fold (\<lambda>child s'. disposeUnusedMeshes child renderSet s') cs s1)"

text \<open>\<^verbatim>\<open>renderSet\<close> holds the identities of the chunks of \<^verbatim>\<open>chunksToRender\<close>.\<close>

definition update :: "FreeCamera \<Rightarrow> CDLOD \<Rightarrow> CDLOD" where
  "update camera s =
     (let chunksToRender = selectLods s camera;
          renderSet = set (map uid chunksToRender);
          s1 = fold (\<lambda>chunk s'. updateChunkMesh chunk camera s') chunksToRender s
      in disposeUnusedMeshes (rootChunk s) renderSet s1)"

fun applyMixFactor :: "real \<Rightarrow> Chunk \<Rightarrow> CDLOD \<Rightarrow> CDLOD" where
  "applyMixFactor factor (Chunk u bb l mn mx cs) s =
     (let s1 = (case mesh s u of
                  Some m \<Rightarrow>
                    s\<lparr>mesh := (mesh s)(u := Some (m\<lparr>material :=
                                        (material m)\<lparr>u_mixFactor := Some factor\<rparr>\<rparr>))\<rparr>
                | None \<Rightarrow> s)
      in fold (\<lambda>child s'. applyMixFactor factor child s') cs s1)"

definition setMixFactor :: "real \<Rightarrow> CDLOD \<Rightarrow> CDLOD" where
  "setMixFactor factor s = applyMixFactor factor (rootChunk s) s"

fun applyWireframe :: "bool \<Rightarrow> Chunk \<Rightarrow> CDLOD \<Rightarrow> CDLOD" where
  "applyWireframe enabled (Chunk u bb l mn mx cs) s =
     (let s1 = (case mesh s u of
                  Some m \<Rightarrow>
                    s\<lparr>mesh := (mesh s)(u := Some (m\<lparr>material :=
                                        (material m)\<lparr>wireframe := enabled\<rparr>\<rparr>))\<rparr>
                | None \<Rightarrow> s)
      in fold (\<lambda>child s'. applyWireframe enabled child s') cs s1)"

definition setWireframe :: "bool \<Rightarrow> CDLOD \<Rightarrow> CDLOD" where
  "setWireframe enabled s = applyWireframe enabled (rootChunk s) (s\<lparr>showChunk := enabled\<rparr>)"

fun applyBoundingBox :: "bool \<Rightarrow> Chunk \<Rightarrow> CDLOD \<Rightarrow> CDLOD" where
  "applyBoundingBox enabled (Chunk u bb l mn mx cs) s =
     (let s1 = (case mesh s u of
                  Some m \<Rightarrow> s\<lparr>mesh := (mesh s)(u := Some (m\<lparr>mesh_showBoundingBox := enabled\<rparr>))\<rparr>
                | None \<Rightarrow> s)
      in fold (\<lambda>child s'. applyBoundingBox enabled child s') cs s1)"

definition setBoundingBox :: "bool \<Rightarrow> CDLOD \<Rightarrow> CDLOD" where
  "setBoundingBox enabled s =
     applyBoundingBox enabled (rootChunk s) (s\<lparr>showBoundingBox := enabled\<rparr>)"

text \<open>The public operations that change the object, and a run of them after construction.\<close>

datatype operation =
  Update FreeCamera
| UpdateChunkMesh Chunk FreeCamera
| SetMixFactor real
| SetWireframe bool
| SetBoundingBox bool

fun apply_operation :: "CDLOD \<Rightarrow> operation \<Rightarrow> CDLOD" where
  "apply_operation s (Update camera) = update camera s"
| "apply_operation s (UpdateChunkMesh chunk camera) = updateChunkMesh chunk camera s"
| "apply_operation s (SetMixFactor factor) = setMixFactor factor s"
| "apply_operation s (SetWireframe enabled) = setWireframe enabled s"
| "apply_operation s (SetBoundingBox enabled) = setBoundingBox enabled s"

definition run :: "ICDLODOptions \<Rightarrow> operation list \<Rightarrow> CDLOD" where
  "run options ops = foldl apply_operation (CDLOD_constructor options) ops"

subsection \<open>The vertex shader: getMorphValue\<close>

definition NUM_LOD_LEVELS :: nat where
  "NUM_LOD_LEVELS = 6"

text \<open>
  What a GLSL evaluation can run into: an array read outside the declared size, and a
  division by zero; the language leaves both results undefined.
\<close>

datatype glsl_fault = IndexOutOfRange | DivisionByZero

text \<open>The conversion \<^verbatim>\<open>int(x)\<close> drops the fractional part.\<close>

definition glsl_int :: "real \<Rightarrow> int" where
  "glsl_int x = (if 0 \<le> x then \<lfloor>x\<rfloor> else \<lceil>x\<rceil>)"

definition clamp :: "real \<Rightarrow> real \<Rightarrow> real \<Rightarrow> real" where
  "clamp x minVal maxVal = min (max x minVal) maxVal"

text \<open>Reading \<^verbatim>\<open>lodRangesLUT[i]\<close>, the uniform array being the list \<open>lut\<close>.\<close>

definition lut_read :: "real list \<Rightarrow> int \<Rightarrow> glsl_fault + real" where
  "lut_read lut i = (if 0 \<le> i \<and> i < int (length lut) then Inr (lut ! nat i) else Inl IndexOutOfRange)"

definition getMorphValue :: "real list \<Rightarrow> real \<Rightarrow> real \<Rightarrow> glsl_fault + real" where
  "getMorphValue lodRangesLUT distance lodLvl =
     (case (if lodLvl > 0 then lut_read lodRangesLUT (glsl_int lodLvl - 1) else Inr 0) of
        Inl e \<Rightarrow> Inl e
      | Inr low \<Rightarrow>
          (case lut_read lodRangesLUT (glsl_int lodLvl) of
             Inl e \<Rightarrow> Inl e
           | Inr high \<Rightarrow>
               let delta = high - low in
               if delta = 0 then Inl DivisionByZero
               else let factor = (distance - low) / delta
                    in Inr (clamp (factor / 0.3 - 1.0) 0.0 1.0)))"

text \<open>
  The uniform array \<^verbatim>\<open>lodRangesLUT[NUM_LOD_LEVELS]\<close> after \<^verbatim>\<open>setFloats\<close> has pushed the
  list \<open>rs\<close>: the array keeps its declared size, is filled from the front, holds 0 where
  nothing was pushed and drops what does not fit.
\<close>

definition lodRangesLUT_uniform :: "real list \<Rightarrow> real list" where
  "lodRangesLUT_uniform rs = take NUM_LOD_LEVELS (rs @ replicate NUM_LOD_LEVELS 0)"

section \<open>Vocabulary of the properties\<close>

text \<open>The chunks of a tree, parent first, and the chunks \<open>k\<close> levels below a chunk.\<close>

fun nodes :: "Chunk \<Rightarrow> Chunk list" where
  "nodes (Chunk u bb l mn mx cs) = Chunk u bb l mn mx cs # concat (map nodes cs)"

fun nodes_at :: "nat \<Rightarrow> Chunk \<Rightarrow> Chunk list" where
  "nodes_at 0 c = [c]"
| "nodes_at (Suc k) c = concat (map (nodes_at k) (children c))"

text \<open>
  The shape \<^verbatim>\<open>buildQuadtree\<close> gives a tree, identities left aside: built over \<open>bb\<close> at
  \<open>level\<close>, with one child per box of \<open>boxes\<close>.
\<close>

fun quadtree_of :: "real \<Rightarrow> BoundingBox \<Rightarrow> int \<Rightarrow> Chunk \<Rightarrow> bool" where
  "quadtree_of th bb level (Chunk u b l mn mx cs) =
     (b = bb \<and> mn = 0 \<and> mx = th \<and>
      (if level < 0 then l = 0 \<and> cs = []
       else l = level \<and>
            list_all2 (\<lambda>box c. quadtree_of th box (level - 1) c) (boxes th bb) cs))"

text \<open>
  The band of index \<open>L\<close> in a range table: \<open>low = (L > 0 ? range[L-1] : 0)\<close> and
  \<open>high = range[L]\<close>.
\<close>

definition band_low :: "real list \<Rightarrow> int \<Rightarrow> real" where
  "band_low lut L = (if L > 0 then lut ! nat (L - 1) else 0)"

definition band_high :: "real list \<Rightarrow> int \<Rightarrow> real" where
  "band_high lut L = lut ! nat L"

text \<open>
  The morph factor as the specification writes it,
  \<open>t = clamp(((d - low) / (high - low)) / 0.3 - 1.0, 0.0, 1.0)\<close>, a division by zero being
  undefined.
\<close>

definition morph_spec :: "real \<Rightarrow> real \<Rightarrow> real \<Rightarrow> glsl_fault + real" where
  "morph_spec low high d =
     (if high - low = 0 then Inl DivisionByZero
      else Inr (clamp (((d - low) / (high - low)) / 0.3 - 1.0) 0.0 1.0))"

text \<open>
  The part of the object that the constructor fixes: the tree, the range table and the
  scalar configuration.
\<close>

definition config :: "CDLOD \<Rightarrow> Chunk \<times> real list \<times> int \<times> real \<times> real \<times> real" where
  "config s =
     (rootChunk s, lodRanges s, lodLevels s, terrainSize s, terrainHeight s, subdivisions s)"

text \<open>
  The chunks strictly below a chunk.
\<close>

definition descendants :: "Chunk \<Rightarrow> Chunk list" where
  "descendants c = concat (map nodes (children c))"

text \<open>
  The calls of \<^verbatim>\<open>traverseAndSelect\<close> made by a call on a chunk with a band index: the
  chunk itself, then the calls on its children when the chunk passes the frustum test
  and is within range.
\<close>

fun visited :: "CDLOD \<Rightarrow> Chunk \<Rightarrow> int \<Rightarrow> FreeCamera \<Rightarrow> (Chunk \<times> int) list" where
  "visited s (Chunk u bb l mn mx cs) lodLvl camera =
     (Chunk u bb l mn mx cs, lodLvl) #
     (if \<not> frustumIntersect (Chunk u bb l mn mx cs) camera then []
      else if \<not> isChunkWithinLodRange s (Chunk u bb l mn mx cs) camera lodLvl then []
      else concat (map (\<lambda>child. visited s child (lodLvl - 1) camera) cs))"

text \<open>
  The paths of a tree from the chunk to its childless chunks.
\<close>

fun paths :: "Chunk \<Rightarrow> Chunk list list" where
  "paths (Chunk u bb l mn mx cs) =
     (if cs = [] then [[Chunk u bb l mn mx cs]]
      else map ((#) (Chunk u bb l mn mx cs)) (concat (map paths cs)))"

text \<open>
  The points of a bounding box, those strictly inside it, and its footprint on the
  XZ plane.
\<close>

definition box_points :: "BoundingBox \<Rightarrow> Vector3 set" where
  "box_points bb =
     {p. vx (minimum bb) \<le> vx p \<and> vx p \<le> vx (maximum bb)
       \<and> vy (minimum bb) \<le> vy p \<and> vy p \<le> vy (maximum bb)
       \<and> vz (minimum bb) \<le> vz p \<and> vz p \<le> vz (maximum bb)}"

definition box_interior :: "BoundingBox \<Rightarrow> Vector3 set" where
  "box_interior bb =
     {p. vx (minimum bb) < vx p \<and> vx p < vx (maximum bb)
       \<and> vy (minimum bb) < vy p \<and> vy p < vy (maximum bb)
       \<and> vz (minimum bb) < vz p \<and> vz p < vz (maximum bb)}"

definition footprint :: "BoundingBox \<Rightarrow> (real \<times> real) set" where
  "footprint bb =
     {(x, z). vx (minimum bb) \<le> x \<and> x \<le> vx (maximum bb)
            \<and> vz (minimum bb) \<le> z \<and> z \<le> vz (maximum bb)}"

text \<open>
  The points whose projection on the XZ plane lies strictly inside the footprint of a
  box.
\<close>

definition xz_inside :: "BoundingBox \<Rightarrow> Vector3 set" where
  "xz_inside bb =
     {p. vx (minimum bb) < vx p \<and> vx p < vx (maximum bb)
       \<and> vz (minimum bb) < vz p \<and> vz p < vz (maximum bb)}"

text \<open>
  A small terrain and a camera at its centre that sees every box, for the concrete
  evaluations: side 2, height 1, one LOD level of range 1.
\<close>

definition example_options :: ICDLODOptions where
  "example_options =
     \<lparr>opt_terrainSize = 2, opt_terrainHeight = 1, opt_minLodDistance = Some 1,
      opt_lodLevels = Some 1, opt_subdivisions = None, opt_showChunk = None,
      opt_showBoundingBox = None\<rparr>"

definition example_camera :: FreeCamera where
  "example_camera = \<lparr>position_ref = 0, position = Vector3 0 0 0, isInFrustum = (\<lambda>b. True)\<rparr>"

text \<open>
  A camera five units above the centre of the small terrain, and the small terrain
  configured with \<open>lodLevels = -1\<close>, whose tree is a single childless chunk.
\<close>

definition far_camera :: FreeCamera where
  "far_camera = \<lparr>position_ref = 0, position = Vector3 0 5 0, isInFrustum = (\<lambda>b. True)\<rparr>"

definition leaf_options :: ICDLODOptions where
  "leaf_options = example_options\<lparr>opt_lodLevels := Some (- 1)\<rparr>"

text \<open>
  The coordinates the shader reads as \<^verbatim>\<open>cameraPosition\<close> when a mesh is rendered: those
  the bound \<^verbatim>\<open>Vector3\<close> object holds then, \<open>store\<close> giving what every such object holds.
\<close>

definition read_cameraPosition :: "(nat \<Rightarrow> Vector3) \<Rightarrow> Mesh \<Rightarrow> Vector3" where
  "read_cameraPosition store m = store (u_cameraPosition (material m))"

text \<open>The cameras an operation is called with.\<close>

fun operation_cameras :: "operation \<Rightarrow> FreeCamera list" where
  "operation_cameras (Update camera) = [camera]"
| "operation_cameras (UpdateChunkMesh chunk camera) = [camera]"
| "operation_cameras (SetMixFactor factor) = []"
| "operation_cameras (SetWireframe enabled) = []"
| "operation_cameras (SetBoundingBox enabled) = []"

text \<open>
  The camera of the small terrain after the engine has moved it in place by a quarter of
  a unit (the position is the same object), another camera at that place (its position
  is another object), and what the two objects hold once the first camera has moved and
  while it has not.
\<close>

definition moved_camera :: FreeCamera where
  "moved_camera = example_camera\<lparr>position := Vector3 (1/4) 0 0\<rparr>"

definition other_camera :: FreeCamera where
  "other_camera = \<lparr>position_ref = 1, position = Vector3 (1/4) 0 0, isInFrustum = (\<lambda>b. True)\<rparr>"

definition store_after_move :: "nat \<Rightarrow> Vector3" where
  "store_after_move r = Vector3 (1/4) 0 0"

definition store_with_other :: "nat \<Rightarrow> Vector3" where
  "store_with_other r = (if r = 0 then Vector3 0 0 0 else Vector3 (1/4) 0 0)"

text \<open>
  The configuration of \<^verbatim>\<open>main.ts\<close> (\<open>lodLevels\<close> is left to its default, 7) and a camera
  9000 units above the centre of the terrain.
\<close>

definition main_options :: ICDLODOptions where
  "main_options =
     \<lparr>opt_terrainSize = 2000, opt_terrainHeight = 200, opt_minLodDistance = None,
      opt_lodLevels = None, opt_subdivisions = Some 16, opt_showChunk = None,
      opt_showBoundingBox = None\<rparr>"

definition high_camera :: FreeCamera where
  "high_camera = \<lparr>position_ref = 0, position = Vector3 0 9000 0, isInFrustum = (\<lambda>b. True)\<rparr>"

section \<open>The quadtree\<close>

lemma buildQuadtree_leaf:
  "level < 0 \<Longrightarrow> buildQuadtree th bb level n = (Chunk n bb 0 0 th [], Suc n)"
  by (simp add: buildQuadtree.simps)

lemma buildQuadtree_node:
  "0 \<le> level \<Longrightarrow> buildQuadtree th bb level n =
     (let (c0, n0) = buildQuadtree th (boxes th bb ! 0) (level - 1) (Suc n);
          (c1, n1) = buildQuadtree th (boxes th bb ! 1) (level - 1) n0;
          (c2, n2) = buildQuadtree th (boxes th bb ! 2) (level - 1) n1;
          (c3, n3) = buildQuadtree th (boxes th bb ! 3) (level - 1) n2
      in (Chunk n bb level 0 th [c0, c1, c2, c3], n3))"
  apply (subst buildQuadtree.simps)
  apply (simp add: boxes_def Let_def split: prod.splits)
  done

lemma boxes_length: "length (boxes th bb) = 4"
  by (simp add: boxes_def Let_def)

lemma boxes_nth_in: "i < 4 \<Longrightarrow> boxes th bb ! i \<in> set (boxes th bb)"
  by (simp add: boxes_length)

lemma boxes_eq: "boxes th bb = [boxes th bb ! 0, boxes th bb ! 1, boxes th bb ! 2, boxes th bb ! 3]"
  by (simp add: boxes_def Let_def)

lemma buildQuadtree_shape:
  "quadtree_of th bb level (fst (buildQuadtree th bb level n))"
proof (induction th bb level n rule: buildQuadtree.induct)
  case (1 th bb level n)
  show ?case
  proof (cases "level < 0")
    case True
    then show ?thesis by (simp add: buildQuadtree_leaf)
  next
    case False
    then have lv: "0 \<le> level" by simp
    have ih: "\<And>i k. i < 4 \<Longrightarrow>
        quadtree_of th (boxes th bb ! i) (level - 1)
          (fst (buildQuadtree th (boxes th bb ! i) (level - 1) k))"
      using 1 False boxes_nth_in by blast
    obtain c0 n0 where b0: "buildQuadtree th (boxes th bb ! 0) (level - 1) (Suc n) = (c0, n0)"
      by (cases "buildQuadtree th (boxes th bb ! 0) (level - 1) (Suc n)")
    obtain c1 n1 where b1: "buildQuadtree th (boxes th bb ! 1) (level - 1) n0 = (c1, n1)"
      by (cases "buildQuadtree th (boxes th bb ! 1) (level - 1) n0")
    obtain c2 n2 where b2: "buildQuadtree th (boxes th bb ! 2) (level - 1) n1 = (c2, n2)"
      by (cases "buildQuadtree th (boxes th bb ! 2) (level - 1) n1")
    obtain c3 n3 where b3: "buildQuadtree th (boxes th bb ! 3) (level - 1) n2 = (c3, n3)"
      by (cases "buildQuadtree th (boxes th bb ! 3) (level - 1) n2")
    have q0: "quadtree_of th (boxes th bb ! 0) (level - 1) c0" using ih[of 0 "Suc n"] b0 by (simp del: One_nat_def)
    have q1: "quadtree_of th (boxes th bb ! 1) (level - 1) c1" using ih[of 1 n0] b1 by (simp del: One_nat_def)
    have q2: "quadtree_of th (boxes th bb ! 2) (level - 1) c2" using ih[of 2 n1] b2 by (simp del: One_nat_def)
    have q3: "quadtree_of th (boxes th bb ! 3) (level - 1) c3" using ih[of 3 n2] b3 by (simp del: One_nat_def)
    have "buildQuadtree th bb level n = (Chunk n bb level 0 th [c0, c1, c2, c3], n3)"
      using buildQuadtree_node[OF lv, of th bb n] b0 b1 b2 b3 by simp
    moreover have "list_all2 (\<lambda>box c. quadtree_of th box (level - 1) c)
        (boxes th bb) [c0, c1, c2, c3]"
      by (subst boxes_eq) (simp add: q0 q1 q2 q3 del: One_nat_def)
    ultimately show ?thesis using False by simp
  qed
qed

lemma upt_split: "a \<le> b \<Longrightarrow> b \<le> c \<Longrightarrow> [a..<c] = [a..<b] @ [b..<c]"
  by (metis le_Suc_ex upt_add_eq_append)

lemma buildQuadtree_uids:
  "buildQuadtree th bb level n = (c, n') \<Longrightarrow> n < n' \<and> map uid (nodes c) = [n..<n']"
proof (induction th bb level n arbitrary: c n' rule: buildQuadtree.induct)
  case (1 th bb level n)
  show ?case
  proof (cases "level < 0")
    case True
    with 1(2) show ?thesis by (auto simp: buildQuadtree_leaf upt_rec)
  next
    case False
    then have lv: "0 \<le> level" by simp
    have ih: "\<And>i k c' k'. i < 4 \<Longrightarrow>
        buildQuadtree th (boxes th bb ! i) (level - 1) k = (c', k') \<Longrightarrow>
        k < k' \<and> map uid (nodes c') = [k..<k']"
      using 1(1) False boxes_nth_in by blast
    obtain c0 n0 where b0: "buildQuadtree th (boxes th bb ! 0) (level - 1) (Suc n) = (c0, n0)"
      by (cases "buildQuadtree th (boxes th bb ! 0) (level - 1) (Suc n)")
    obtain c1 n1 where b1: "buildQuadtree th (boxes th bb ! 1) (level - 1) n0 = (c1, n1)"
      by (cases "buildQuadtree th (boxes th bb ! 1) (level - 1) n0")
    obtain c2 n2 where b2: "buildQuadtree th (boxes th bb ! 2) (level - 1) n1 = (c2, n2)"
      by (cases "buildQuadtree th (boxes th bb ! 2) (level - 1) n1")
    obtain c3 n3 where b3: "buildQuadtree th (boxes th bb ! 3) (level - 1) n2 = (c3, n3)"
      by (cases "buildQuadtree th (boxes th bb ! 3) (level - 1) n2")
    note u0 = ih[of 0, OF _ b0] and u1 = ih[of 1, OF _ b1]
      and u2 = ih[of 2, OF _ b2] and u3 = ih[of 3, OF _ b3]
    have eq: "buildQuadtree th bb level n = (Chunk n bb level 0 th [c0, c1, c2, c3], n3)"
      using buildQuadtree_node[OF lv, of th bb n] b0 b1 b2 b3 by simp
    with 1(2) have c: "c = Chunk n bb level 0 th [c0, c1, c2, c3]" and n': "n' = n3" by simp_all
    have lt: "Suc n < n0" "n0 < n1" "n1 < n2" "n2 < n3" using u0 u1 u2 u3 by simp_all
    have "[n..<n3] = n # [Suc n..<n0] @ [n0..<n1] @ [n1..<n2] @ [n2..<n3]"
    proof -
      have "[n..<n3] = n # [Suc n..<n3]" using lt by (simp add: upt_rec)
      moreover have "[Suc n..<n3] = [Suc n..<n0] @ [n0..<n3]"
        using lt by (intro upt_split) simp_all
      moreover have "[n0..<n3] = [n0..<n1] @ [n1..<n3]"
        using lt by (intro upt_split) simp_all
      moreover have "[n1..<n3] = [n1..<n2] @ [n2..<n3]"
        using lt by (intro upt_split) simp_all
      ultimately show ?thesis by simp
    qed
    then show ?thesis using c n' u0 u1 u2 u3 lt by simp
  qed
qed

lemma quadtree_of_leaf:
  "quadtree_of th bb level c \<Longrightarrow> level < 0 \<Longrightarrow>
     children c = [] \<and> lodLevel c = 0 \<and> boundingBox c = bb"
  by (cases c) simp

lemma quadtree_of_node:
  assumes "quadtree_of th bb level c" "0 \<le> level"
  shows "\<exists>c0 c1 c2 c3. children c = [c0, c1, c2, c3] \<and> lodLevel c = level \<and> boundingBox c = bb \<and>
           quadtree_of th (boxes th bb ! 0) (level - 1) c0 \<and>
           quadtree_of th (boxes th bb ! 1) (level - 1) c1 \<and>
           quadtree_of th (boxes th bb ! 2) (level - 1) c2 \<and>
           quadtree_of th (boxes th bb ! 3) (level - 1) c3"
proof -
  obtain u b l mn mx cs where c: "c = Chunk u b l mn mx cs" by (cases c)
  from assms c have la: "list_all2 (\<lambda>box c. quadtree_of th box (level - 1) c)
       [boxes th bb ! 0, boxes th bb ! 1, boxes th bb ! 2, boxes th bb ! 3] cs"
    and rest: "l = level" "b = bb"
    using boxes_eq[of th bb] by auto
  from la show ?thesis using c rest
    by (auto simp add: list_all2_Cons1 simp del: One_nat_def)
qed

lemma quadtree_of_count:
  "quadtree_of th bb level c \<Longrightarrow> 3 * length (nodes c) + 1 = 4 ^ (nat (level + 1) + 1)"
proof (induction c arbitrary: bb level)
  case (Chunk u b l mn mx cs)
  show ?case
  proof (cases "level < 0")
    case True
    with Chunk.prems show ?thesis by simp
  next
    case False
    then have lv: "0 \<le> level" by simp
    from quadtree_of_node[OF Chunk.prems lv] obtain c0 c1 c2 c3 where
      cs: "cs = [c0, c1, c2, c3]" and
      q: "quadtree_of th (boxes th bb ! 0) (level - 1) c0"
         "quadtree_of th (boxes th bb ! 1) (level - 1) c1"
         "quadtree_of th (boxes th bb ! 2) (level - 1) c2"
         "quadtree_of th (boxes th bb ! 3) (level - 1) c3"
      by auto
    have e: "nat (level + 1) = Suc (nat (level - 1 + 1))" using lv by simp
    have "3 * length (nodes c0) + 1 = 4 ^ (nat (level - 1 + 1) + 1)"
         "3 * length (nodes c1) + 1 = 4 ^ (nat (level - 1 + 1) + 1)"
         "3 * length (nodes c2) + 1 = 4 ^ (nat (level - 1 + 1) + 1)"
         "3 * length (nodes c3) + 1 = 4 ^ (nat (level - 1 + 1) + 1)"
      using Chunk.IH q cs by simp_all
    then show ?thesis unfolding e using cs by simp
  qed
qed

lemma quadtree_of_children:
  "quadtree_of th bb level c \<Longrightarrow> x \<in> set (nodes c) \<Longrightarrow>
     length (children x) = 0 \<or> length (children x) = 4"
proof (induction c arbitrary: bb level)
  case (Chunk u b l mn mx cs)
  show ?case
  proof (cases "level < 0")
    case True
    with Chunk.prems show ?thesis by auto
  next
    case False
    then have lv: "0 \<le> level" by simp
    from quadtree_of_node[OF Chunk.prems(1) lv] obtain c0 c1 c2 c3 where
      cs: "cs = [c0, c1, c2, c3]" and
      q: "quadtree_of th (boxes th bb ! 0) (level - 1) c0"
         "quadtree_of th (boxes th bb ! 1) (level - 1) c1"
         "quadtree_of th (boxes th bb ! 2) (level - 1) c2"
         "quadtree_of th (boxes th bb ! 3) (level - 1) c3"
      by auto
    from Chunk.prems(2) cs consider "x = Chunk u b l mn mx cs"
      | "x \<in> set (nodes c0)" | "x \<in> set (nodes c1)" | "x \<in> set (nodes c2)" | "x \<in> set (nodes c3)"
      by auto
    then show ?thesis
    proof cases
      case 1 then show ?thesis using cs by simp
    next
      case 2 then show ?thesis using Chunk.IH[of c0, OF _ q(1)] cs by simp
    next
      case 3 then show ?thesis using Chunk.IH[of c1, OF _ q(2)] cs by simp
    next
      case 4 then show ?thesis using Chunk.IH[of c2, OF _ q(3)] cs by simp
    next
      case 5 then show ?thesis using Chunk.IH[of c3, OF _ q(4)] cs by simp
    qed
  qed
qed

lemma quadtree_of_depth:
  "quadtree_of th bb level c \<Longrightarrow> x \<in> set (nodes_at k c) \<Longrightarrow>
     (children x = [] \<longleftrightarrow> k = nat (level + 1))"
proof (induction k arbitrary: c bb level)
  case 0
  then have x: "x = c" by simp
  show ?case
  proof (cases "level < 0")
    case True
    then show ?thesis using quadtree_of_leaf[OF "0.prems"(1)] x by simp
  next
    case False
    then show ?thesis using quadtree_of_node[OF "0.prems"(1)] x by auto
  qed
next
  case (Suc k)
  show ?case
  proof (cases "level < 0")
    case True
    then show ?thesis using quadtree_of_leaf[OF Suc.prems(1)] Suc.prems(2) by simp
  next
    case False
    then have lv: "0 \<le> level" by simp
    from quadtree_of_node[OF Suc.prems(1) lv] obtain c0 c1 c2 c3 where
      cs: "children c = [c0, c1, c2, c3]" and
      q: "quadtree_of th (boxes th bb ! 0) (level - 1) c0"
         "quadtree_of th (boxes th bb ! 1) (level - 1) c1"
         "quadtree_of th (boxes th bb ! 2) (level - 1) c2"
         "quadtree_of th (boxes th bb ! 3) (level - 1) c3"
      by auto
    have e: "nat (level + 1) = Suc (nat (level - 1 + 1))" using lv by simp
    from Suc.prems(2) cs consider
      "x \<in> set (nodes_at k c0)" | "x \<in> set (nodes_at k c1)"
      | "x \<in> set (nodes_at k c2)" | "x \<in> set (nodes_at k c3)"
      by auto
    then show ?thesis
    proof cases
      case 1 then show ?thesis using Suc.IH[OF q(1)] e by simp
    next
      case 2 then show ?thesis using Suc.IH[OF q(2)] e by simp
    next
      case 3 then show ?thesis using Suc.IH[OF q(3)] e by simp
    next
      case 4 then show ?thesis using Suc.IH[OF q(4)] e by simp
    qed
  qed
qed

lemma quadtree_of_level_size:
  "quadtree_of th bb level c \<Longrightarrow> k \<le> nat (level + 1) \<Longrightarrow> length (nodes_at k c) = 4 ^ k"
proof (induction k arbitrary: c bb level)
  case 0
  then show ?case by simp
next
  case (Suc k)
  then have lv: "0 \<le> level" by simp
  from quadtree_of_node[OF Suc.prems(1) lv] obtain c0 c1 c2 c3 where
    cs: "children c = [c0, c1, c2, c3]" and
    q: "quadtree_of th (boxes th bb ! 0) (level - 1) c0"
       "quadtree_of th (boxes th bb ! 1) (level - 1) c1"
       "quadtree_of th (boxes th bb ! 2) (level - 1) c2"
       "quadtree_of th (boxes th bb ! 3) (level - 1) c3"
    by auto
  have k: "k \<le> nat (level - 1 + 1)" using Suc.prems(2) by simp
  show ?case using Suc.IH[OF q(1) k] Suc.IH[OF q(2) k] Suc.IH[OF q(3) k] Suc.IH[OF q(4) k] cs
    by simp
qed

text \<open>
  Claim C8.  For every depth \<open>D \<ge> 0\<close>, the tree built by \<^verbatim>\<open>buildQuadtree\<close> with root level
  \<open>D\<close> has \<open>(4 ^ (D + 2) - 1) / 3\<close> chunks, every chunk has 0 or 4 children, and the
  childless chunks are exactly those \<open>D + 1\<close> levels below the root (there are
  \<open>4 ^ (D + 1)\<close> of them).
\<close>

theorem C8_quadtree_size_and_leaves:
  assumes "0 \<le> D"
  shows "length (nodes (fst (buildQuadtree th bb D n))) = (4 ^ (nat D + 2) - 1) div 3
       \<and> (\<forall>c \<in> set (nodes (fst (buildQuadtree th bb D n))).
             length (children c) = 0 \<or> length (children c) = 4)
       \<and> (\<forall>k. \<forall>c \<in> set (nodes_at k (fst (buildQuadtree th bb D n))).
             children c = [] \<longleftrightarrow> k = nat D + 1)
       \<and> length (nodes_at (nat D + 1) (fst (buildQuadtree th bb D n))) = 4 ^ (nat D + 1)"
proof -
  let ?t = "fst (buildQuadtree th bb D n)"
  have q: "quadtree_of th bb D ?t" by (rule buildQuadtree_shape)
  have e: "nat (D + 1) = nat D + 1" using assms by simp
  have "3 * length (nodes ?t) + 1 = 4 ^ (nat D + 2)"
    using quadtree_of_count[OF q] e by simp
  then have "length (nodes ?t) = (4 ^ (nat D + 2) - 1) div 3"
    by arith
  moreover have "\<forall>c \<in> set (nodes ?t). length (children c) = 0 \<or> length (children c) = 4"
    using quadtree_of_children[OF q] by blast
  moreover have "\<forall>k. \<forall>c \<in> set (nodes_at k ?t). children c = [] \<longleftrightarrow> k = nat D + 1"
    using quadtree_of_depth[OF q] e by simp
  moreover have "length (nodes_at (nat D + 1) ?t) = 4 ^ (nat D + 1)"
    using quadtree_of_level_size[OF q, of "nat D + 1"] e by simp
  ultimately show ?thesis by blast
qed

theorem C8_quadtree_size_and_leaves_witness:
  "(0::int) \<le> 0
   \<and> length (nodes (fst (buildQuadtree 10
          (BoundingBox (Vector3 (-50) (-50) (-50)) (Vector3 50 50 50)) 0 0))) = 5
   \<and> length (children (fst (buildQuadtree 10
          (BoundingBox (Vector3 (-50) (-50) (-50)) (Vector3 50 50 50)) 0 0))) = 4
   \<and> length (nodes_at 1 (fst (buildQuadtree 10
          (BoundingBox (Vector3 (-50) (-50) (-50)) (Vector3 50 50 50)) 0 0))) = 4
   \<and> map children (nodes_at 1 (fst (buildQuadtree 10
          (BoundingBox (Vector3 (-50) (-50) (-50)) (Vector3 50 50 50)) 0 0))) = [[], [], [], []]"
  using C8_quadtree_size_and_leaves
          [of 0 10 "BoundingBox (Vector3 (-50) (-50) (-50)) (Vector3 50 50 50)" 0]
  by (simp add: buildQuadtree_node buildQuadtree_leaf boxes_def Center_def)

section \<open>The morph factor\<close>

lemma glsl_int_of_int: "glsl_int (of_int L) = L"
  by (simp add: glsl_int_def)

lemma getMorphValue_in_bounds:
  assumes "0 \<le> L" "L < int (length lut)"
  shows "getMorphValue lut d (of_int L) =
           (if band_high lut L - band_low lut L = 0 then Inl DivisionByZero
            else Inr (clamp ((d - band_low lut L) / (band_high lut L - band_low lut L) / 0.3 - 1) 0 1))"
proof -
  have "nat (L - 1) < length lut" if "0 < L" using that assms by linarith
  then show ?thesis
    unfolding getMorphValue_def glsl_int_of_int
    using assms by (auto simp add: lut_read_def band_low_def band_high_def Let_def)
qed

text \<open>
  Claim C4.  For every distance \<open>d\<close> and every band index \<open>L\<close> inside the range table,
  \<^verbatim>\<open>getMorphValue\<close> computes the formula of the specification,
  \<open>clamp(((d - low) / (high - low)) / 0.3 - 1.0, 0.0, 1.0)\<close>; both are undefined when
  \<open>high = low\<close>.
\<close>

theorem C4_morph_formula:
  assumes "0 \<le> L" "L < int (length lut)"
  shows "getMorphValue lut d (of_int L) = morph_spec (band_low lut L) (band_high lut L) d"
  using getMorphValue_in_bounds[OF assms] by (simp add: morph_spec_def)

theorem C4_morph_formula_witness:
  "getMorphValue [10, 20] 16 (of_int 1) = morph_spec (band_low [10, 20] 1) (band_high [10, 20] 1) 16
   \<and> morph_spec (band_low [10, 20] 1) (band_high [10, 20] 1) 16 = Inr 1
   \<and> getMorphValue [10, 20] 14 (of_int 1) = Inr (1 / 3)"
  using C4_morph_formula[of 1 "[10, 20]" 16] C4_morph_formula[of 1 "[10, 20]" 14]
  by (simp add: morph_spec_def band_low_def band_high_def clamp_def)

text \<open>
  Claim C3 states that the morph factor is 0 up to 70% of the band.  In the band
  \<open>[0, 10)\<close> at \<open>d = 5\<close> the factor is \<open>2/3\<close>, and in the band \<open>[10, 20)\<close> at \<open>d = 16\<close>
  it is already 1.
\<close>

theorem C3_counterexample:
  "(5::real) \<le> band_low [10, 20] 0 + 0.7 * (band_high [10, 20] 0 - band_low [10, 20] 0)
   \<and> getMorphValue [10, 20] 5 0 = Inr (2 / 3)
   \<and> (16::real) \<le> band_low [10, 20] 1 + 0.7 * (band_high [10, 20] 1 - band_low [10, 20] 1)
   \<and> getMorphValue [10, 20] 16 1 = Inr 1"
  by (simp add: getMorphValue_def glsl_int_def lut_read_def band_low_def band_high_def clamp_def)

text \<open>
  Claim C3, amended.  In a band with \<open>low < high\<close> the morph factor is 0 for every
  \<open>d \<le> low + 0.3 * (high - low)\<close>, is 1 for every \<open>d \<ge> low + 0.6 * (high - low)\<close>, so
  also at \<open>d = high\<close>, rises linearly in between, and lies in \<open>[0, 1]\<close> for every \<open>d\<close>.
\<close>

theorem C3_morph_profile:
  assumes "0 \<le> L" "L < int (length lut)" "band_low lut L < band_high lut L"
  shows "(d \<le> band_low lut L + 0.3 * (band_high lut L - band_low lut L)
            \<longrightarrow> getMorphValue lut d (of_int L) = Inr 0)
       \<and> (band_low lut L + 0.6 * (band_high lut L - band_low lut L) \<le> d
            \<longrightarrow> getMorphValue lut d (of_int L) = Inr 1)
       \<and> getMorphValue lut (band_high lut L) (of_int L) = Inr 1
       \<and> (band_low lut L + 0.3 * (band_high lut L - band_low lut L) \<le> d
          \<and> d \<le> band_low lut L + 0.6 * (band_high lut L - band_low lut L)
            \<longrightarrow> getMorphValue lut d (of_int L)
                = Inr ((d - band_low lut L) / (band_high lut L - band_low lut L) / 0.3 - 1))
       \<and> (\<exists>t. getMorphValue lut d (of_int L) = Inr t \<and> 0 \<le> t \<and> t \<le> 1)"
proof -
  define lo where "lo = band_low lut L"
  define hi where "hi = band_high lut L"
  have pos: "0 < hi - lo" using assms(3) by (simp add: lo_def hi_def)
  have g: "\<And>x. getMorphValue lut x (of_int L) = Inr (clamp ((x - lo) / (hi - lo) / 0.3 - 1) 0 1)"
    using getMorphValue_in_bounds[OF assms(1,2)] pos by (simp add: lo_def hi_def)
  have f: "\<And>x. (x - lo) / (hi - lo) / 0.3 - 1 = (x - lo - 0.3 * (hi - lo)) / (0.3 * (hi - lo))"
    using pos by (simp add: field_simps)
  have a: "d \<le> lo + 0.3 * (hi - lo) \<Longrightarrow> clamp ((d - lo) / (hi - lo) / 0.3 - 1) 0 1 = 0"
  proof -
    assume "d \<le> lo + 0.3 * (hi - lo)"
    then have "(d - lo - 0.3 * (hi - lo)) / (0.3 * (hi - lo)) \<le> 0"
      using pos by (simp add: field_simps)
    then show ?thesis unfolding f by (simp add: clamp_def)
  qed
  have b: "\<And>x. lo + 0.6 * (hi - lo) \<le> x \<Longrightarrow> clamp ((x - lo) / (hi - lo) / 0.3 - 1) 0 1 = 1"
  proof -
    fix x assume "lo + 0.6 * (hi - lo) \<le> x"
    then have "1 \<le> (x - lo - 0.3 * (hi - lo)) / (0.3 * (hi - lo))"
      using pos by (simp add: field_simps)
    then show "clamp ((x - lo) / (hi - lo) / 0.3 - 1) 0 1 = 1" unfolding f by (simp add: clamp_def)
  qed
  have c: "lo + 0.3 * (hi - lo) \<le> d \<Longrightarrow> d \<le> lo + 0.6 * (hi - lo) \<Longrightarrow>
      clamp ((d - lo) / (hi - lo) / 0.3 - 1) 0 1 = (d - lo) / (hi - lo) / 0.3 - 1"
  proof -
    assume "lo + 0.3 * (hi - lo) \<le> d" "d \<le> lo + 0.6 * (hi - lo)"
    then have "0 \<le> (d - lo - 0.3 * (hi - lo)) / (0.3 * (hi - lo))"
      "(d - lo - 0.3 * (hi - lo)) / (0.3 * (hi - lo)) \<le> 1"
      using pos by (simp_all add: field_simps)
    then show ?thesis unfolding f by (simp add: clamp_def)
  qed
  have h: "lo + 0.6 * (hi - lo) \<le> hi" using pos by (simp add: field_simps)
  have e: "0 \<le> clamp ((d - lo) / (hi - lo) / 0.3 - 1) 0 1 \<and> clamp ((d - lo) / (hi - lo) / 0.3 - 1) 0 1 \<le> 1"
    by (simp add: clamp_def)
  show ?thesis
    unfolding lo_def[symmetric] hi_def[symmetric] g
    using a b[of d] b[OF h] c e by simp
qed

theorem C3_morph_profile_witness:
  "band_low [10, 20] 1 < band_high [10, 20] 1
   \<and> getMorphValue [10, 20] 13 (of_int 1) = Inr 0
   \<and> getMorphValue [10, 20] 16 (of_int 1) = Inr 1
   \<and> getMorphValue [10, 20] 20 (of_int 1) = Inr 1
   \<and> getMorphValue [10, 20] 14 (of_int 1) = Inr (1 / 3)"
  using C3_morph_profile[of 1 "[10, 20]" 13] C3_morph_profile[of 1 "[10, 20]" 16]
        C3_morph_profile[of 1 "[10, 20]" 14]
  by (simp add: band_low_def band_high_def)

section \<open>The constructor\<close>

lemma lodRanges_loop_eq:
  "0 \<le> i \<Longrightarrow> lodRanges_loop i n m rs = rs @ map (\<lambda>k. m * 2 ^ k) [nat i..<nat n]"
proof (induction i n m rs rule: lodRanges_loop.induct)
  case (1 i n m rs)
  show ?case
  proof (cases "i < n")
    case True
    then have "nat i < nat n" using 1(2) by simp
    then have u: "[nat i..<nat n] = nat i # [nat (i + 1)..<nat n]"
      using 1(2) by (simp add: upt_rec nat_add_distrib)
    have "lodRanges_loop i n m rs = lodRanges_loop (i + 1) n m (rs @ [m * 2 ^ nat i])"
      using True by (subst lodRanges_loop.simps) simp
    also have "\<dots> = (rs @ [m * 2 ^ nat i]) @ map (\<lambda>k. m * 2 ^ k) [nat (i + 1)..<nat n]"
      using 1(1)[OF True] 1(2) by simp
    finally show ?thesis unfolding u by simp
  next
    case False
    then have "nat n \<le> nat i" by simp
    then show ?thesis using False by (subst lodRanges_loop.simps) simp
  qed
qed

lemma constructor_lodLevels:
  "lodLevels (CDLOD_constructor options) = (case opt_lodLevels options of None \<Rightarrow> 7 | Some n \<Rightarrow> n)"
  by (simp add: CDLOD_constructor_def Let_def)

lemma constructor_lodRanges:
  "lodRanges (CDLOD_constructor options) =
     map (\<lambda>k. (case opt_minLodDistance options of
                   None \<Rightarrow> opt_terrainSize options / 15
                 | Some m \<Rightarrow> if m = 0 then opt_terrainSize options / 15 else m) * 2 ^ k)
         [0..<nat (lodLevels (CDLOD_constructor options))]"
  by (simp add: CDLOD_constructor_def Let_def lodRanges_loop_eq)

lemma constructor_rootChunk:
  "rootChunk (CDLOD_constructor options) =
     fst (buildQuadtree (opt_terrainHeight options)
            (BoundingBox (Vector3 (- opt_terrainSize options * 0.5) (- opt_terrainSize options * 0.5)
                                  (- opt_terrainSize options * 0.5))
                         (Vector3 (opt_terrainSize options * 0.5) (opt_terrainSize options * 0.5)
                                  (opt_terrainSize options * 0.5)))
            (lodLevels (CDLOD_constructor options)) 0)"
  by (simp add: CDLOD_constructor_def Let_def)

lemma constructor_scalars:
  "terrainSize (CDLOD_constructor options) = opt_terrainSize options"
  "terrainHeight (CDLOD_constructor options) = opt_terrainHeight options"
  "mesh (CDLOD_constructor options) = (\<lambda>u. None)"
  "calls (CDLOD_constructor options) = []"
  by (simp_all add: CDLOD_constructor_def Let_def)

section \<open>What the operations leave alone\<close>

lemma fold_keeps:
  "(\<And>x s. x \<in> set xs \<Longrightarrow> g (f x s) = g s) \<Longrightarrow> g (fold f xs s) = g s"
  by (induction xs arbitrary: s) simp_all

lemma config_updateChunkMesh: "config (updateChunkMesh c cam s) = config s"
  by (simp add: updateChunkMesh_def config_def Let_def split: option.splits)

lemma config_disposeUnusedMeshes: "config (disposeUnusedMeshes c R s) = config s"
proof (induction c arbitrary: s)
  case (Chunk u bb l mn mx cs)
  have "config (fold (\<lambda>child s'. disposeUnusedMeshes child R s') cs s1) = config s1" for s1
    by (rule fold_keeps) (simp add: Chunk.IH)
  then show ?case by (simp add: Let_def config_def split: option.splits)
qed

lemma config_update: "config (update cam s) = config s"
proof -
  have "config (fold (\<lambda>chunk s'. updateChunkMesh chunk cam s') xs s) = config s" for xs
    by (rule fold_keeps) (simp add: config_updateChunkMesh)
  then show ?thesis by (simp add: update_def Let_def config_disposeUnusedMeshes)
qed

lemma config_applyMixFactor: "config (applyMixFactor f c s) = config s"
proof (induction c arbitrary: s)
  case (Chunk u bb l mn mx cs)
  have "config (fold (\<lambda>child s'. applyMixFactor f child s') cs s1) = config s1" for s1
    by (rule fold_keeps) (simp add: Chunk.IH)
  then show ?case by (simp add: Let_def config_def split: option.splits)
qed

lemma config_applyWireframe: "config (applyWireframe e c s) = config s"
proof (induction c arbitrary: s)
  case (Chunk u bb l mn mx cs)
  have "config (fold (\<lambda>child s'. applyWireframe e child s') cs s1) = config s1" for s1
    by (rule fold_keeps) (simp add: Chunk.IH)
  then show ?case by (simp add: Let_def config_def split: option.splits)
qed

lemma config_applyBoundingBox: "config (applyBoundingBox e c s) = config s"
proof (induction c arbitrary: s)
  case (Chunk u bb l mn mx cs)
  have "config (fold (\<lambda>child s'. applyBoundingBox e child s') cs s1) = config s1" for s1
    by (rule fold_keeps) (simp add: Chunk.IH)
  then show ?case by (simp add: Let_def config_def split: option.splits)
qed

lemma config_apply_operation: "config (apply_operation s op) = config s"
proof (cases op)
  case (SetWireframe e)
  have "config (s\<lparr>showChunk := e\<rparr>) = config s" by (simp add: config_def)
  then show ?thesis using SetWireframe by (simp add: setWireframe_def config_applyWireframe)
next
  case (SetBoundingBox e)
  have "config (s\<lparr>showBoundingBox := e\<rparr>) = config s" by (simp add: config_def)
  then show ?thesis using SetBoundingBox by (simp add: setBoundingBox_def config_applyBoundingBox)
qed (simp_all add: config_update config_updateChunkMesh setMixFactor_def config_applyMixFactor)

lemma config_foldl: "config (foldl apply_operation s ops) = config s"
  by (induction ops arbitrary: s) (simp_all add: config_apply_operation)

lemma config_run: "config (run options ops) = config (CDLOD_constructor options)"
  by (simp add: run_def config_foldl)




section \<open>Bounding boxes of the tree\<close>

lemma nodes_descendants: "nodes c = c # descendants c"
  by (cases c) (simp add: descendants_def)

lemma boxes_y_extent:
  "b \<in> set (boxes th bb) \<Longrightarrow> vy (minimum b) = 0 \<and> vy (maximum b) = th"
  by (auto simp: boxes_def Let_def)

lemma quadtree_of_box: "quadtree_of th bb level c \<Longrightarrow> boundingBox c = bb"
  by (cases c) simp

lemma quadtree_of_child:
  assumes "quadtree_of th bb level c" "ch \<in> set (children c)"
  shows "\<exists>b \<in> set (boxes th bb). quadtree_of th b (level - 1) ch"
proof -
  obtain u b l mn mx cs where c: "c = Chunk u b l mn mx cs" by (cases c)
  show ?thesis
  proof (cases "level < 0")
    case True
    with assms c show ?thesis by simp
  next
    case False
    with assms c have "list_all2 (\<lambda>box c. quadtree_of th box (level - 1) c) (boxes th bb) cs"
      and "ch \<in> set cs" by simp_all
    then show ?thesis by (metis in_set_conv_nth list_all2_conv_all_nth nth_mem)
  qed
qed

lemma quadtree_of_y_extent:
  "quadtree_of th bb level c \<Longrightarrow> x \<in> set (descendants c) \<Longrightarrow>
     vy (minimum (boundingBox x)) = 0 \<and> vy (maximum (boundingBox x)) = th"
proof (induction c arbitrary: bb level)
  case (Chunk u b l mn mx cs)
  from Chunk.prems(2) obtain ch where ch: "ch \<in> set cs" and x: "x \<in> set (nodes ch)"
    by (auto simp: descendants_def)
  from quadtree_of_child[OF Chunk.prems(1)] ch obtain b' where
    b': "b' \<in> set (boxes th bb)" and q: "quadtree_of th b' (level - 1) ch"
    by auto
  from x consider "x = ch" | "x \<in> set (descendants ch)" by (auto simp: nodes_descendants)
  then show ?case
  proof cases
    case 1
    then show ?thesis using quadtree_of_box[OF q] boxes_y_extent[OF b'] by simp
  next
    case 2
    then show ?thesis using Chunk.IH[OF ch q] by simp
  qed
qed

text \<open>
  Claim C6 states that every chunk, the root included, has the Y extent
  \<open>[0, terrainHeight]\<close>.  With the defaults of the constructor (\<open>terrainSize = 100\<close>,
  \<open>terrainHeight = 10\<close>) the box of the root spans \<open>[-50, 50]\<close> in Y.
\<close>

theorem C6_counterexample:
  "vy (minimum (boundingBox (rootChunk (CDLOD_constructor
      \<lparr>opt_terrainSize = 100, opt_terrainHeight = 10, opt_minLodDistance = None,
       opt_lodLevels = None, opt_subdivisions = None, opt_showChunk = None,
       opt_showBoundingBox = None\<rparr>)))) = - 50
   \<and> vy (maximum (boundingBox (rootChunk (CDLOD_constructor
      \<lparr>opt_terrainSize = 100, opt_terrainHeight = 10, opt_minLodDistance = None,
       opt_lodLevels = None, opt_subdivisions = None, opt_showChunk = None,
       opt_showBoundingBox = None\<rparr>)))) = 50
   \<and> terrainHeight (CDLOD_constructor
      \<lparr>opt_terrainSize = 100, opt_terrainHeight = 10, opt_minLodDistance = None,
       opt_lodLevels = None, opt_subdivisions = None, opt_showChunk = None,
       opt_showBoundingBox = None\<rparr>) = 10"
  by (simp add: constructor_rootChunk constructor_scalars
        quadtree_of_box[OF buildQuadtree_shape])

text \<open>
  Claim C6, amended.  Every chunk of the constructed quadtree below the root has a
  bounding box whose Y extent is \<open>[0, terrainHeight]\<close>, whatever its depth; the box of the
  root is the cube of side \<open>terrainSize\<close> centred at the origin, with Y extent
  \<open>[-terrainSize/2, terrainSize/2]\<close>.
\<close>

theorem C6_y_extent_below_root:
  "(\<forall>c \<in> set (descendants (rootChunk (CDLOD_constructor options))).
       vy (minimum (boundingBox c)) = 0
     \<and> vy (maximum (boundingBox c)) = terrainHeight (CDLOD_constructor options))
   \<and> vy (minimum (boundingBox (rootChunk (CDLOD_constructor options))))
       = - terrainSize (CDLOD_constructor options) / 2
   \<and> vy (maximum (boundingBox (rootChunk (CDLOD_constructor options))))
       = terrainSize (CDLOD_constructor options) / 2"
proof -
  let ?s = "CDLOD_constructor options"
  let ?bb = "BoundingBox (Vector3 (- opt_terrainSize options * 0.5) (- opt_terrainSize options * 0.5)
                                  (- opt_terrainSize options * 0.5))
                         (Vector3 (opt_terrainSize options * 0.5) (opt_terrainSize options * 0.5)
                                  (opt_terrainSize options * 0.5))"
  have q: "quadtree_of (opt_terrainHeight options) ?bb (lodLevels ?s) (rootChunk ?s)"
    unfolding constructor_rootChunk by (rule buildQuadtree_shape)
  have "\<forall>c \<in> set (descendants (rootChunk ?s)).
       vy (minimum (boundingBox c)) = 0 \<and> vy (maximum (boundingBox c)) = terrainHeight ?s"
    using quadtree_of_y_extent[OF q] by (simp add: constructor_scalars)
  moreover have "boundingBox (rootChunk ?s) = ?bb" using quadtree_of_box[OF q] .
  ultimately show ?thesis by (simp add: constructor_scalars)
qed

theorem C6_y_extent_below_root_witness:
  "map (\<lambda>c. (vy (minimum (boundingBox c)), vy (maximum (boundingBox c))))
       (descendants (rootChunk (CDLOD_constructor
          \<lparr>opt_terrainSize = 100, opt_terrainHeight = 10, opt_minLodDistance = None,
           opt_lodLevels = Some 0, opt_subdivisions = None, opt_showChunk = None,
           opt_showBoundingBox = None\<rparr>)))
     = [(0, 10), (0, 10), (0, 10), (0, 10)]
   \<and> vy (minimum (boundingBox (rootChunk (CDLOD_constructor
          \<lparr>opt_terrainSize = 100, opt_terrainHeight = 10, opt_minLodDistance = None,
           opt_lodLevels = Some 0, opt_subdivisions = None, opt_showChunk = None,
           opt_showBoundingBox = None\<rparr>)))) = - 50"
  using C6_y_extent_below_root[of "\<lparr>opt_terrainSize = 100, opt_terrainHeight = 10,
           opt_minLodDistance = None, opt_lodLevels = Some 0, opt_subdivisions = None,
           opt_showChunk = None, opt_showBoundingBox = None\<rparr>"]
  by (simp add: constructor_rootChunk constructor_scalars constructor_lodLevels descendants_def
        buildQuadtree_node buildQuadtree_leaf boxes_def Center_def)

section \<open>Selection\<close>

lemma fold_append_concat:
  "(\<And>x dl. x \<in> set xs \<Longrightarrow> f x dl = dl @ f x []) \<Longrightarrow>
     fold f xs dl = dl @ concat (map (\<lambda>x. f x []) xs)"
proof (induction xs arbitrary: dl)
  case Nil
  then show ?case by simp
next
  case (Cons a xs)
  have "fold f (a # xs) dl = fold f xs (f a dl)" by simp
  also have "\<dots> = f a dl @ concat (map (\<lambda>x. f x []) xs)"
    by (rule Cons.IH) (rule Cons.prems, simp)
  also have "f a dl = dl @ f a []" by (rule Cons.prems) simp
  finally show ?case by simp
qed

lemma traverseAndSelect_append:
  "traverseAndSelect s c b cam dl = dl @ traverseAndSelect s c b cam []"
proof (induction c arbitrary: b dl)
  case (Chunk u bb l mn mx cs)
  have f: "fold (\<lambda>child dl. traverseAndSelect s child (b - 1) cam dl) cs dl'
      = dl' @ concat (map (\<lambda>child. traverseAndSelect s child (b - 1) cam []) cs)" for dl'
    by (rule fold_append_concat) (rule Chunk.IH)
  show ?case by (simp add: f)
qed

lemma traverseAndSelect_unfold:
  "traverseAndSelect s c b cam [] =
     (if \<not> frustumIntersect c cam then []
      else if \<not> isChunkWithinLodRange s c cam b then [c]
      else concat (map (\<lambda>child. traverseAndSelect s child (b - 1) cam []) (children c)))"
proof (cases c)
  case (Chunk u bb l mn mx cs)
  have "fold (\<lambda>child dl. traverseAndSelect s child (b - 1) cam dl) cs []
      = [] @ concat (map (\<lambda>child. traverseAndSelect s child (b - 1) cam []) cs)"
    by (rule fold_append_concat) (rule traverseAndSelect_append)
  then show ?thesis using Chunk by simp
qed

lemma fold_same:
  "(\<And>x a. x \<in> set xs \<Longrightarrow> f x a = g x a) \<Longrightarrow> fold f xs a = fold g xs a"
  by (induction xs arbitrary: a) simp_all

lemma traverseAndSelect_lodRanges:
  "lodRanges s = lodRanges s' \<Longrightarrow>
     traverseAndSelect s c b cam dl = traverseAndSelect s' c b cam dl"
proof (induction c arbitrary: b dl)
  case (Chunk u bb l mn mx cs)
  have w: "isChunkWithinLodRange s x cam k = isChunkWithinLodRange s' x cam k" for x k
    using Chunk.prems by (simp add: isChunkWithinLodRange_def)
  have "fold (\<lambda>child dl. traverseAndSelect s child (b - 1) cam dl) cs dl
      = fold (\<lambda>child dl. traverseAndSelect s' child (b - 1) cam dl) cs dl"
    by (rule fold_same) (rule Chunk.IH[OF _ Chunk.prems])
  then show ?case by (simp add: w)
qed

lemma selectLods_config:
  "config s = config s' \<Longrightarrow> selectLods s cam = selectLods s' cam"
  using traverseAndSelect_lodRanges[of s s']
  by (simp add: selectLods_def config_def)

lemma subseq_concat_map:
  "(\<And>x. x \<in> set xs \<Longrightarrow> subseq (f x) (g x)) \<Longrightarrow> subseq (concat (map f xs)) (concat (map g xs))"
  by (induction xs) (simp_all add: list_emb_append_mono)

lemma traverseAndSelect_subseq:
  "subseq (traverseAndSelect s c b cam []) (nodes c)"
proof (induction c arbitrary: b)
  case (Chunk u bb l mn mx cs)
  have "subseq (concat (map (\<lambda>child. traverseAndSelect s child (b - 1) cam []) cs))
               (concat (map nodes cs))"
    by (rule subseq_concat_map) (rule Chunk.IH)
  then show ?case
    by (subst traverseAndSelect_unfold) (simp add: list_emb_Cons)
qed

lemma subseq_member: "subseq xs ys \<Longrightarrow> x \<in> set xs \<Longrightarrow> x \<in> set ys"
  by (induction rule: list_emb.induct) auto

lemma subseq_keeps_distinct: "subseq xs ys \<Longrightarrow> distinct ys \<Longrightarrow> distinct xs"
proof -
  assume "subseq xs ys" and d: "distinct ys"
  then obtain N where "xs = nths ys N" unfolding subseq_conv_nths by blast
  with d show ?thesis by simp
qed

lemma traverseAndSelect_nodes:
  "x \<in> set (traverseAndSelect s c b cam []) \<Longrightarrow> x \<in> set (nodes c)"
  using traverseAndSelect_subseq[of s c b cam] by (rule subseq_member)

lemma traverseAndSelect_distinct:
  "distinct (map uid (nodes c)) \<Longrightarrow> distinct (map uid (traverseAndSelect s c b cam []))"
  using subseq_map[OF traverseAndSelect_subseq[of s c b cam], of uid]
  by (rule subseq_keeps_distinct)

lemma constructor_uids:
  "map uid (nodes (rootChunk (CDLOD_constructor options)))
     = [0..<length (nodes (rootChunk (CDLOD_constructor options)))]"
proof -
  obtain c n' where b: "buildQuadtree (opt_terrainHeight options)
            (BoundingBox (Vector3 (- opt_terrainSize options * 0.5) (- opt_terrainSize options * 0.5)
                                  (- opt_terrainSize options * 0.5))
                         (Vector3 (opt_terrainSize options * 0.5) (opt_terrainSize options * 0.5)
                                  (opt_terrainSize options * 0.5)))
            (lodLevels (CDLOD_constructor options)) 0 = (c, n')"
    by (rule prod.exhaust)
  from buildQuadtree_uids[OF b] have u: "map uid (nodes c) = [0..<n']" by simp
  have "length (map uid (nodes c)) = length [0..<n']" by (simp only: u)
  then have "length (nodes c) = n'" by simp
  moreover have "rootChunk (CDLOD_constructor options) = c"
    by (simp only: constructor_rootChunk b fst_conv)
  ultimately show ?thesis using u by simp
qed

lemma constructor_distinct:
  "distinct (map uid (nodes (rootChunk (CDLOD_constructor options))))"
  by (simp add: constructor_uids)

section \<open>Geometry of the boxes\<close>

lemma box_interior_xz: "box_interior b \<subseteq> xz_inside b"
  by (auto simp: box_interior_def xz_inside_def)

lemma boxes_xz_inside: "b \<in> set (boxes th bb) \<Longrightarrow> xz_inside b \<subseteq> xz_inside bb"
  by (auto simp: boxes_def Let_def Center_def xz_inside_def)

lemma boxes_xz_disjoint:
  assumes "i < 4" "j < 4" "i \<noteq> j"
  shows "xz_inside (boxes th bb ! i) \<inter> xz_inside (boxes th bb ! j) = {}"
proof -
  have i: "i = 0 \<or> i = 1 \<or> i = 2 \<or> i = 3" using assms(1) by auto
  have j: "j = 0 \<or> j = 1 \<or> j = 2 \<or> j = 3" using assms(2) by auto
  show ?thesis
    using i j assms(3)
    by (auto simp: boxes_def Let_def Center_def xz_inside_def)
qed

lemma boxes_footprint: "b \<in> set (boxes th bb) \<Longrightarrow> footprint b \<subseteq> footprint bb"
  by (auto simp: boxes_def Let_def Center_def footprint_def)

lemma boxes_footprint_cover: "footprint bb \<subseteq> (\<Union>b \<in> set (boxes th bb). footprint b)"
  by (auto simp: boxes_def Let_def Center_def footprint_def)

lemma quadtree_of_child_index:
  assumes "quadtree_of th bb level c" "ch \<in> set (children c)"
  shows "\<exists>i<4. children c ! i = ch \<and> quadtree_of th (boxes th bb ! i) (level - 1) ch"
proof -
  obtain u b l mn mx cs where c: "c = Chunk u b l mn mx cs" by (cases c)
  show ?thesis
  proof (cases "level < 0")
    case True
    with assms c show ?thesis by simp
  next
    case False
    with assms c have la: "list_all2 (\<lambda>box c. quadtree_of th box (level - 1) c) (boxes th bb) cs"
      and "ch \<in> set cs" by simp_all
    then obtain i where i: "i < length cs" "cs ! i = ch" by (auto simp: in_set_conv_nth)
    have len: "length cs = 4" using la boxes_length[of th bb] by (simp add: list_all2_lengthD[symmetric])
    have "quadtree_of th (boxes th bb ! i) (level - 1) (cs ! i)"
      using la i(1) len boxes_length[of th bb] by (simp add: list_all2_conv_all_nth)
    then show ?thesis using i len c by auto
  qed
qed

lemma quadtree_of_nodes_xz:
  "quadtree_of th bb level c \<Longrightarrow> x \<in> set (nodes c) \<Longrightarrow>
     xz_inside (boundingBox x) \<subseteq> xz_inside bb"
proof (induction c arbitrary: bb level)
  case (Chunk u b l mn mx cs)
  from Chunk.prems(2) consider "x = Chunk u b l mn mx cs"
    | ch where "ch \<in> set cs" "x \<in> set (nodes ch)" by auto
  then show ?case
  proof cases
    case 1
    then show ?thesis using quadtree_of_box[OF Chunk.prems(1)] by simp
  next
    case 2
    from quadtree_of_child[OF Chunk.prems(1)] 2(1) obtain b' where
      b': "b' \<in> set (boxes th bb)" and q: "quadtree_of th b' (level - 1) ch" by auto
    have "xz_inside (boundingBox x) \<subseteq> xz_inside b'" using Chunk.IH[OF 2(1) q 2(2)] .
    then show ?thesis using boxes_xz_inside[OF b'] by blast
  qed
qed

lemma quadtree_of_nodes_footprint:
  "quadtree_of th bb level c \<Longrightarrow> x \<in> set (nodes c) \<Longrightarrow>
     footprint (boundingBox x) \<subseteq> footprint bb"
proof (induction c arbitrary: bb level)
  case (Chunk u b l mn mx cs)
  from Chunk.prems(2) consider "x = Chunk u b l mn mx cs"
    | ch where "ch \<in> set cs" "x \<in> set (nodes ch)" by auto
  then show ?case
  proof cases
    case 1
    then show ?thesis using quadtree_of_box[OF Chunk.prems(1)] by simp
  next
    case 2
    from quadtree_of_child[OF Chunk.prems(1)] 2(1) obtain b' where
      b': "b' \<in> set (boxes th bb)" and q: "quadtree_of th b' (level - 1) ch" by auto
    have "footprint (boundingBox x) \<subseteq> footprint b'" using Chunk.IH[OF 2(1) q 2(2)] .
    then show ?thesis using boxes_footprint[OF b'] by blast
  qed
qed

lemma selected_children:
  assumes "x \<in> set (traverseAndSelect s c b cam [])" "x \<noteq> c"
  shows "\<exists>ch \<in> set (children c). x \<in> set (traverseAndSelect s ch (b - 1) cam [])"
  using assms by (subst (asm) traverseAndSelect_unfold) (auto split: if_splits)

lemma selected_xz_disjoint:
  "quadtree_of th bb level c \<Longrightarrow>
   x \<in> set (traverseAndSelect s c b cam []) \<Longrightarrow>
   y \<in> set (traverseAndSelect s c b cam []) \<Longrightarrow> x \<noteq> y \<Longrightarrow>
     xz_inside (boundingBox x) \<inter> xz_inside (boundingBox y) = {}"
proof (induction c arbitrary: bb level b)
  case (Chunk u bx l mn mx cs)
  let ?c = "Chunk u bx l mn mx cs"
  have rec: "traverseAndSelect s ?c b cam [] \<noteq> [?c]"
  proof
    assume "traverseAndSelect s ?c b cam [] = [?c]"
    with Chunk.prems(2,3,4) show False by simp
  qed
  have sel: "traverseAndSelect s ?c b cam []
      = concat (map (\<lambda>child. traverseAndSelect s child (b - 1) cam []) cs)"
    using rec Chunk.prems(2) by (subst traverseAndSelect_unfold) (auto split: if_splits simp: traverseAndSelect_unfold[of s ?c])
  from Chunk.prems(2) sel obtain chx where chx: "chx \<in> set cs"
    "x \<in> set (traverseAndSelect s chx (b - 1) cam [])" by auto
  from Chunk.prems(3) sel obtain chy where chy: "chy \<in> set cs"
    "y \<in> set (traverseAndSelect s chy (b - 1) cam [])" by auto
  from quadtree_of_child_index[OF Chunk.prems(1)] chx(1) obtain i where
    i: "i < 4" "cs ! i = chx" "quadtree_of th (boxes th bb ! i) (level - 1) chx" by auto
  from quadtree_of_child_index[OF Chunk.prems(1)] chy(1) obtain j where
    j: "j < 4" "cs ! j = chy" "quadtree_of th (boxes th bb ! j) (level - 1) chy" by auto
  show ?case
  proof (cases "i = j")
    case True
    then have "chx = chy" using i(2) j(2) by simp
    then show ?thesis using Chunk.IH[OF chx(1) i(3) chx(2) _ Chunk.prems(4)] chy(2) by simp
  next
    case False
    have "xz_inside (boundingBox x) \<subseteq> xz_inside (boxes th bb ! i)"
      using quadtree_of_nodes_xz[OF i(3)] traverseAndSelect_nodes[OF chx(2)] .
    moreover have "xz_inside (boundingBox y) \<subseteq> xz_inside (boxes th bb ! j)"
      using quadtree_of_nodes_xz[OF j(3)] traverseAndSelect_nodes[OF chy(2)] .
    ultimately show ?thesis using boxes_xz_disjoint[OF i(1) j(1) False, of th bb] by blast
  qed
qed

section \<open>Paths and identities\<close>

lemma paths_cases:
  assumes "p \<in> set (paths c)"
  shows "(children c = [] \<and> p = [c])
       \<or> (\<exists>ch \<in> set (children c). \<exists>p' \<in> set (paths ch). p = c # p')"
  using assms by (cases c) (auto split: if_splits)

lemma paths_nonempty: "p \<in> set (paths c) \<Longrightarrow> p \<noteq> []"
  using paths_cases by fastforce

lemma paths_nodes: "p \<in> set (paths c) \<Longrightarrow> x \<in> set p \<Longrightarrow> x \<in> set (nodes c)"
proof (induction c arbitrary: p)
  case (Chunk u bb l mn mx cs)
  from paths_cases[OF Chunk.prems(1)] show ?case
  proof
    assume "children (Chunk u bb l mn mx cs) = [] \<and> p = [Chunk u bb l mn mx cs]"
    then show ?thesis using Chunk.prems(2) by simp
  next
    assume "\<exists>ch \<in> set (children (Chunk u bb l mn mx cs)). \<exists>p' \<in> set (paths ch).
              p = Chunk u bb l mn mx cs # p'"
    then obtain ch p' where ch: "ch \<in> set cs" and p': "p' \<in> set (paths ch)"
      and p: "p = Chunk u bb l mn mx cs # p'" by auto
    from Chunk.prems(2) p consider "x = Chunk u bb l mn mx cs" | "x \<in> set p'" by auto
    then show ?thesis
    proof cases
      case 1 then show ?thesis by simp
    next
      case 2
      then have "x \<in> set (nodes ch)" using Chunk.IH[OF ch p'] by simp
      then show ?thesis using ch by auto
    qed
  qed
qed

lemma distinct_concat_owner:
  "distinct (map f (concat (map g xs))) \<Longrightarrow> a \<in> set xs \<Longrightarrow> b \<in> set xs \<Longrightarrow>
     x \<in> set (g a) \<Longrightarrow> y \<in> set (g b) \<Longrightarrow> f x = f y \<Longrightarrow> a = b"
proof (induction xs)
  case Nil
  then show ?case by simp
next
  case (Cons c xs)
  have d: "distinct (map f (concat (map g xs)))"
    and dis: "f ` set (g c) \<inter> f ` (\<Union>z \<in> set xs. set (g z)) = {}"
    using Cons.prems(1) by auto
  show ?case
  proof (cases "a = c")
    case a: True
    show ?thesis
    proof (cases "b = c")
      case True with a show ?thesis by simp
    next
      case False
      then have "b \<in> set xs" using Cons.prems(3) by simp
      then have "f y \<in> f ` (\<Union>z \<in> set xs. set (g z))" using Cons.prems(5) by blast
      moreover have "f x \<in> f ` set (g c)" using Cons.prems(4) a by blast
      ultimately show ?thesis using dis Cons.prems(6) by auto
    qed
  next
    case a: False
    then have ax: "a \<in> set xs" using Cons.prems(2) by simp
    show ?thesis
    proof (cases "b = c")
      case True
      have "f x \<in> f ` (\<Union>z \<in> set xs. set (g z))" using ax Cons.prems(4) by blast
      moreover have "f y \<in> f ` set (g c)" using Cons.prems(5) True by blast
      ultimately show ?thesis using dis Cons.prems(6) by auto
    next
      case False
      then have "b \<in> set xs" using Cons.prems(3) by simp
      then show ?thesis using Cons.IH[OF d ax _ Cons.prems(4,5,6)] by simp
    qed
  qed
qed

lemma distinct_siblings:
  assumes "distinct (map uid (nodes c))" "ch \<in> set (children c)" "ch' \<in> set (children c)"
    "x \<in> set (nodes ch)" "y \<in> set (nodes ch')" "uid x = uid y"
  shows "ch = ch'"
proof -
  have "distinct (map uid (concat (map nodes (children c))))"
    using assms(1) by (cases c) simp
  then show ?thesis using distinct_concat_owner assms(2-) by metis
qed

lemma distinct_child:
  assumes "distinct (map uid (nodes c))" "ch \<in> set (children c)"
  shows "distinct (map uid (nodes ch))" and "\<And>x. x \<in> set (nodes ch) \<Longrightarrow> uid x \<noteq> uid c"
proof -
  obtain u bb l mn mx cs where c: "c = Chunk u bb l mn mx cs" by (cases c)
  have d: "distinct (map uid (concat (map nodes cs)))"
    and n: "u \<notin> uid ` (\<Union>z \<in> set cs. set (nodes z))"
    using assms(1) c by auto
  have "distinct (concat (map (map uid \<circ> nodes) cs))" using d by (simp add: map_concat)
  then show "distinct (map uid (nodes ch))"
    using assms(2) c by (auto simp: distinct_concat_iff)
  show "\<And>x. x \<in> set (nodes ch) \<Longrightarrow> uid x \<noteq> uid c"
    using n assms(2) c by auto
qed

lemma within_index:
  "isChunkWithinLodRange s c cam b \<Longrightarrow> 0 \<le> b \<and> b < int (length (lodRanges s))"
  by (auto simp: isChunkWithinLodRange_def array_get_def Let_def split: if_splits option.splits)

lemma path_exactly_one:
  "quadtree_of th bb level c \<Longrightarrow> b < level \<Longrightarrow> distinct (map uid (nodes c)) \<Longrightarrow>
   p \<in> set (paths c) \<Longrightarrow> (\<forall>x \<in> set p. frustumIntersect x cam) \<Longrightarrow>
     \<exists>!x. x \<in> set p \<and> x \<in> set (traverseAndSelect s c b cam [])"
proof (induction c arbitrary: bb level b p)
  case (Chunk u bx l mn mx cs)
  let ?c = "Chunk u bx l mn mx cs"
  have cp: "?c \<in> set p" using paths_cases[OF Chunk.prems(4)] by auto
  then have vis: "frustumIntersect ?c cam" using Chunk.prems(5) by blast
  show ?case
  proof (cases "isChunkWithinLodRange s ?c cam b")
    case False
    then have "traverseAndSelect s ?c b cam [] = [?c]"
      using vis by (subst traverseAndSelect_unfold) simp
    then show ?thesis using cp by auto
  next
    case True
    then have "0 \<le> b" using within_index by blast
    then have lv: "0 \<le> level" using Chunk.prems(2) by simp
    from quadtree_of_node[OF Chunk.prems(1) lv] have ne: "cs \<noteq> []" by auto
    with paths_cases[OF Chunk.prems(4)] obtain ch p' where
      ch: "ch \<in> set cs" and p': "p' \<in> set (paths ch)" and p: "p = ?c # p'" by auto
    from quadtree_of_child[OF Chunk.prems(1)] ch obtain b' where
      q: "quadtree_of th b' (level - 1) ch" by auto
    have dch: "distinct (map uid (nodes ch))"
      using distinct_child(1)[OF Chunk.prems(3)] ch by simp
    have visp': "\<forall>x \<in> set p'. frustumIntersect x cam" using Chunk.prems(5) p by simp
    have ih: "\<exists>!x. x \<in> set p' \<and> x \<in> set (traverseAndSelect s ch (b - 1) cam [])"
      using Chunk.IH[OF ch q _ dch p' visp'] Chunk.prems(2) by simp
    have sel: "traverseAndSelect s ?c b cam []
        = concat (map (\<lambda>child. traverseAndSelect s child (b - 1) cam []) cs)"
      using True vis by (subst traverseAndSelect_unfold) simp
    have eq: "(x \<in> set p \<and> x \<in> set (traverseAndSelect s ?c b cam []))
        \<longleftrightarrow> (x \<in> set p' \<and> x \<in> set (traverseAndSelect s ch (b - 1) cam []))" for x
    proof
      assume a: "x \<in> set p \<and> x \<in> set (traverseAndSelect s ?c b cam [])"
      then obtain ch' where ch': "ch' \<in> set cs"
        and xs: "x \<in> set (traverseAndSelect s ch' (b - 1) cam [])"
        using sel by auto
      have xn: "x \<in> set (nodes ch')" using traverseAndSelect_nodes[OF xs] .
      have "x \<noteq> ?c" using distinct_child(2)[OF Chunk.prems(3), of ch' x] ch' xn by auto
      then have xp': "x \<in> set p'" using a p by simp
      then have "x \<in> set (nodes ch)" using paths_nodes[OF p'] by simp
      then have "ch = ch'"
        using distinct_siblings[OF Chunk.prems(3), of ch ch' x x] ch ch' xn by simp
      then show "x \<in> set p' \<and> x \<in> set (traverseAndSelect s ch (b - 1) cam [])"
        using xp' xs by simp
    next
      assume "x \<in> set p' \<and> x \<in> set (traverseAndSelect s ch (b - 1) cam [])"
      then show "x \<in> set p \<and> x \<in> set (traverseAndSelect s ?c b cam [])"
        using p sel ch by auto
    qed
    show ?thesis using ih unfolding eq .
  qed
qed

lemma path_footprint:
  "quadtree_of th bb level c \<Longrightarrow> p \<in> set (paths c) \<Longrightarrow> x \<in> set p \<Longrightarrow>
     footprint (boundingBox (last p)) \<subseteq> footprint (boundingBox x)"
proof (induction c arbitrary: bb level p)
  case (Chunk u bx l mn mx cs)
  let ?c = "Chunk u bx l mn mx cs"
  from paths_cases[OF Chunk.prems(2)] show ?case
  proof
    assume "children ?c = [] \<and> p = [?c]"
    then show ?thesis using Chunk.prems(3) by simp
  next
    assume "\<exists>ch \<in> set (children ?c). \<exists>p' \<in> set (paths ch). p = ?c # p'"
    then obtain ch p' where ch: "ch \<in> set cs" and p': "p' \<in> set (paths ch)"
      and p: "p = ?c # p'" by auto
    have ne: "p' \<noteq> []" using paths_nonempty[OF p'] .
    then have lp: "last p = last p'" using p by simp
    from quadtree_of_child[OF Chunk.prems(1)] ch obtain b' where
      q: "quadtree_of th b' (level - 1) ch" by auto
    from Chunk.prems(3) p consider "x = ?c" | "x \<in> set p'" by auto
    then show ?thesis
    proof cases
      case 1
      have "last p' \<in> set (nodes ch)" using paths_nodes[OF p'] ne by simp
      then have "last p' \<in> set (nodes ?c)" using ch by auto
      then have "footprint (boundingBox (last p')) \<subseteq> footprint bb"
        using quadtree_of_nodes_footprint[OF Chunk.prems(1)] by simp
      then show ?thesis using 1 lp quadtree_of_box[OF Chunk.prems(1)] by simp
    next
      case 2
      then show ?thesis using Chunk.IH[OF ch q p'] lp by simp
    qed
  qed
qed

lemma paths_child:
  "ch \<in> set (children c) \<Longrightarrow> p' \<in> set (paths ch) \<Longrightarrow> c # p' \<in> set (paths c)"
  by (cases c) auto

lemma leaves_cover:
  "quadtree_of th bb level c \<Longrightarrow> q \<in> footprint bb \<Longrightarrow>
     \<exists>p \<in> set (paths c). q \<in> footprint (boundingBox (last p))"
proof (induction c arbitrary: bb level)
  case (Chunk u bx l mn mx cs)
  let ?c = "Chunk u bx l mn mx cs"
  show ?case
  proof (cases "level < 0")
    case True
    then have "cs = []" "bx = bb" using Chunk.prems(1) by simp_all
    then show ?thesis using Chunk.prems(2) by simp
  next
    case False
    from boxes_footprint_cover[of bb th] Chunk.prems(2) obtain b' where
      b': "b' \<in> set (boxes th bb)" and qb: "q \<in> footprint b'" by blast
    then obtain i where i: "i < 4" "boxes th bb ! i = b'"
      using boxes_length[of th bb] by (auto simp: in_set_conv_nth)
    from Chunk.prems(1) False have la:
      "list_all2 (\<lambda>box c. quadtree_of th box (level - 1) c) (boxes th bb) cs" by simp
    then have len: "length cs = 4" using boxes_length[of th bb]
      by (simp add: list_all2_lengthD[symmetric])
    have qi: "quadtree_of th b' (level - 1) (cs ! i)"
      using la i boxes_length[of th bb] by (auto simp: list_all2_conv_all_nth)
    have ci: "cs ! i \<in> set cs" using i(1) len by simp
    from Chunk.IH[OF ci qi qb] obtain p' where
      p': "p' \<in> set (paths (cs ! i))" and ql: "q \<in> footprint (boundingBox (last p'))" by auto
    have "?c # p' \<in> set (paths ?c)" using paths_child[of "cs ! i" ?c p'] ci p' by simp
    moreover have "last (?c # p') = last p'" using paths_nonempty[OF p'] by simp
    ultimately show ?thesis using ql by metis
  qed
qed

lemma run_selectLods: "selectLods (run options ops) cam = selectLods (CDLOD_constructor options) cam"
  by (rule selectLods_config) (rule config_run)

lemma run_rootChunk: "rootChunk (run options ops) = rootChunk (CDLOD_constructor options)"
  using config_run[of options ops] by (simp add: config_def)

lemma run_lodRanges: "lodRanges (run options ops) = lodRanges (CDLOD_constructor options)"
  using config_run[of options ops] by (simp add: config_def)

lemma run_lodLevels: "lodLevels (run options ops) = lodLevels (CDLOD_constructor options)"
  using config_run[of options ops] by (simp add: config_def)

lemma constructor_quadtree:
  "\<exists>bb. quadtree_of (opt_terrainHeight options) bb (lodLevels (CDLOD_constructor options))
          (rootChunk (CDLOD_constructor options))"
  unfolding constructor_rootChunk using buildQuadtree_shape by blast

lemmas eval_tree = buildQuadtree_node buildQuadtree_leaf boxes_def Center_def Let_def

lemma example_root:
  "rootChunk (CDLOD_constructor example_options) =
     Chunk 0 (BoundingBox (Vector3 (-1) (-1) (-1)) (Vector3 1 1 1)) 1 0 1
       [Chunk 1 (BoundingBox (Vector3 (-1) 0 (-1)) (Vector3 0 1 0)) 0 0 1
          [Chunk 2 (BoundingBox (Vector3 (-1) 0 (-1)) (Vector3 (-1/2) 1 (-1/2))) 0 0 1 [],
           Chunk 3 (BoundingBox (Vector3 (-1/2) 0 (-1)) (Vector3 0 1 (-1/2))) 0 0 1 [],
           Chunk 4 (BoundingBox (Vector3 (-1) 0 (-1/2)) (Vector3 (-1/2) 1 0)) 0 0 1 [],
           Chunk 5 (BoundingBox (Vector3 (-1/2) 0 (-1/2)) (Vector3 0 1 0)) 0 0 1 []],
        Chunk 6 (BoundingBox (Vector3 0 0 (-1)) (Vector3 1 1 0)) 0 0 1
          [Chunk 7 (BoundingBox (Vector3 0 0 (-1)) (Vector3 (1/2) 1 (-1/2))) 0 0 1 [],
           Chunk 8 (BoundingBox (Vector3 (1/2) 0 (-1)) (Vector3 1 1 (-1/2))) 0 0 1 [],
           Chunk 9 (BoundingBox (Vector3 0 0 (-1/2)) (Vector3 (1/2) 1 0)) 0 0 1 [],
           Chunk 10 (BoundingBox (Vector3 (1/2) 0 (-1/2)) (Vector3 1 1 0)) 0 0 1 []],
        Chunk 11 (BoundingBox (Vector3 (-1) 0 0) (Vector3 0 1 1)) 0 0 1
          [Chunk 12 (BoundingBox (Vector3 (-1) 0 0) (Vector3 (-1/2) 1 (1/2))) 0 0 1 [],
           Chunk 13 (BoundingBox (Vector3 (-1/2) 0 0) (Vector3 0 1 (1/2))) 0 0 1 [],
           Chunk 14 (BoundingBox (Vector3 (-1) 0 (1/2)) (Vector3 (-1/2) 1 1)) 0 0 1 [],
           Chunk 15 (BoundingBox (Vector3 (-1/2) 0 (1/2)) (Vector3 0 1 1)) 0 0 1 []],
        Chunk 16 (BoundingBox (Vector3 0 0 0) (Vector3 1 1 1)) 0 0 1
          [Chunk 17 (BoundingBox (Vector3 0 0 0) (Vector3 (1/2) 1 (1/2))) 0 0 1 [],
           Chunk 18 (BoundingBox (Vector3 (1/2) 0 0) (Vector3 1 1 (1/2))) 0 0 1 [],
           Chunk 19 (BoundingBox (Vector3 0 0 (1/2)) (Vector3 (1/2) 1 1)) 0 0 1 [],
           Chunk 20 (BoundingBox (Vector3 (1/2) 0 (1/2)) (Vector3 1 1 1)) 0 0 1 []]]"
  by (simp add: constructor_rootChunk constructor_lodLevels example_options_def eval_tree)

lemma example_lodRanges: "lodRanges (CDLOD_constructor example_options) = [1]"
  by (simp add: constructor_lodRanges constructor_lodLevels example_options_def)

lemma example_lodLevels: "lodLevels (CDLOD_constructor example_options) = 1"
  by (simp add: constructor_lodLevels example_options_def)

lemma example_selectLods:
  "selectLods (CDLOD_constructor example_options) example_camera =
     children (rootChunk (CDLOD_constructor example_options))"
  by (simp add: selectLods_def example_root example_lodRanges example_lodLevels
        example_camera_def frustumIntersect_def isChunkWithinLodRange_def array_get_def
        center_def Center_def Distance_def)

text \<open>
  Claim C1 states that the bounding boxes of two selected chunks have an empty
  intersection.  On the small terrain, seen from its centre, the four chunks of level 0
  are selected; the first two are different chunks and the point \<open>(0, 1/2, -1/2)\<close> of
  their common face lies in both boxes.
\<close>

theorem C1_counterexample:
  "map uid (selectLods (CDLOD_constructor example_options) example_camera) = [1, 6, 11, 16]
   \<and> Vector3 0 (1/2) (-1/2)
       \<in> box_points (boundingBox (selectLods (CDLOD_constructor example_options) example_camera ! 0))
   \<and> Vector3 0 (1/2) (-1/2)
       \<in> box_points (boundingBox (selectLods (CDLOD_constructor example_options) example_camera ! 1))"
  by (simp add: example_selectLods example_root box_points_def)

text \<open>
  Claim C1, amended.  For any camera and any state reached from the constructor, no chunk
  appears twice in the list \<^verbatim>\<open>selectLods\<close> returns; two different selected chunks have
  bounding boxes with disjoint interiors (neighbours share a face); on every path from
  the root to a childless chunk all of whose chunks pass the frustum test exactly one
  chunk is selected, and the footprint of the childless chunk lies in the footprint of a
  selected chunk; the footprints of the childless chunks cover the footprint of the
  root.
\<close>

theorem C1_selection_partition:
  assumes "sel = selectLods (run options ops) camera"
    and "tree = rootChunk (run options ops)"
  shows "distinct (map uid sel)
       \<and> (\<forall>x \<in> set sel. \<forall>y \<in> set sel. x \<noteq> y \<longrightarrow>
             box_interior (boundingBox x) \<inter> box_interior (boundingBox y) = {})
       \<and> (\<forall>p \<in> set (paths tree). (\<forall>x \<in> set p. frustumIntersect x camera) \<longrightarrow>
             (\<exists>!x. x \<in> set p \<and> x \<in> set sel))
       \<and> (\<forall>p \<in> set (paths tree). (\<forall>x \<in> set p. frustumIntersect x camera) \<longrightarrow>
             (\<exists>x \<in> set sel. footprint (boundingBox (last p)) \<subseteq> footprint (boundingBox x)))
       \<and> (\<forall>q \<in> footprint (boundingBox tree).
             \<exists>p \<in> set (paths tree). q \<in> footprint (boundingBox (last p)))"
proof -
  let ?s = "CDLOD_constructor options"
  obtain bb where q: "quadtree_of (opt_terrainHeight options) bb (lodLevels ?s) (rootChunk ?s)"
    using constructor_quadtree by blast
  have sel: "sel = traverseAndSelect ?s (rootChunk ?s) (lodLevels ?s - 1) camera []"
    using assms(1) run_selectLods[of options ops camera] by (simp only: selectLods_def)
  have tree: "tree = rootChunk ?s" using assms(2) by (simp add: run_rootChunk)
  have d: "distinct (map uid (nodes (rootChunk ?s)))" by (rule constructor_distinct)
  have 1: "distinct (map uid sel)" unfolding sel by (rule traverseAndSelect_distinct[OF d])
  have 2: "\<forall>x \<in> set sel. \<forall>y \<in> set sel. x \<noteq> y \<longrightarrow>
             box_interior (boundingBox x) \<inter> box_interior (boundingBox y) = {}"
  proof (intro ballI impI)
    fix x y assume "x \<in> set sel" "y \<in> set sel" "x \<noteq> y"
    then have "xz_inside (boundingBox x) \<inter> xz_inside (boundingBox y) = {}"
      unfolding sel by (rule selected_xz_disjoint[OF q])
    then show "box_interior (boundingBox x) \<inter> box_interior (boundingBox y) = {}"
      using box_interior_xz by blast
  qed
  have 3: "\<forall>p \<in> set (paths tree). (\<forall>x \<in> set p. frustumIntersect x camera) \<longrightarrow>
             (\<exists>!x. x \<in> set p \<and> x \<in> set sel)"
    unfolding sel tree using path_exactly_one[OF q _ d] by simp
  have 4: "\<forall>p \<in> set (paths tree). (\<forall>x \<in> set p. frustumIntersect x camera) \<longrightarrow>
             (\<exists>x \<in> set sel. footprint (boundingBox (last p)) \<subseteq> footprint (boundingBox x))"
  proof (intro ballI impI)
    fix p assume p: "p \<in> set (paths tree)" and v: "\<forall>x \<in> set p. frustumIntersect x camera"
    with 3 obtain x where x: "x \<in> set p" "x \<in> set sel" by blast
    have "footprint (boundingBox (last p)) \<subseteq> footprint (boundingBox x)"
      using path_footprint[OF q] p x(1) tree by simp
    with x(2) show "\<exists>x \<in> set sel. footprint (boundingBox (last p)) \<subseteq> footprint (boundingBox x)"
      by blast
  qed
  have 5: "\<forall>q \<in> footprint (boundingBox tree).
             \<exists>p \<in> set (paths tree). q \<in> footprint (boundingBox (last p))"
    using leaves_cover[OF q] quadtree_of_box[OF q] tree by simp
  from 1 2 3 4 5 show ?thesis by blast
qed

theorem C1_selection_partition_witness:
  "map uid (selectLods (run example_options [Update example_camera]) example_camera)
     = [1, 6, 11, 16]
   \<and> box_interior (boundingBox (selectLods (run example_options [Update example_camera])
                                    example_camera ! 0))
       \<inter> box_interior (boundingBox (selectLods (run example_options [Update example_camera])
                                      example_camera ! 1)) = {}
   \<and> map uid (hd (paths (rootChunk (run example_options [Update example_camera])))) = [0, 1, 2]
   \<and> (\<exists>!x. x \<in> set (hd (paths (rootChunk (run example_options [Update example_camera]))))
            \<and> x \<in> set (selectLods (run example_options [Update example_camera]) example_camera))
   \<and> (\<exists>x \<in> set (selectLods (run example_options [Update example_camera]) example_camera).
         footprint (boundingBox (last (hd (paths (rootChunk
                      (run example_options [Update example_camera]))))))
           \<subseteq> footprint (boundingBox x))"
proof -
  let ?s = "run example_options [Update example_camera]"
  let ?sel = "selectLods ?s example_camera"
  note t = C1_selection_partition[of ?sel example_options "[Update example_camera]"
              example_camera "rootChunk ?s", OF refl refl]
  have sel: "?sel = children (rootChunk (CDLOD_constructor example_options))"
    by (simp only: run_selectLods example_selectLods)
  have rt: "rootChunk ?s = rootChunk (CDLOD_constructor example_options)"
    by (rule run_rootChunk)
  have m: "?sel ! 0 \<in> set ?sel" "?sel ! 1 \<in> set ?sel" "?sel ! 0 \<noteq> ?sel ! 1"
    unfolding sel by (simp_all add: example_root)
  have p: "hd (paths (rootChunk ?s)) \<in> set (paths (rootChunk ?s))"
    unfolding rt by (simp add: example_root)
  have v: "\<forall>x \<in> set (hd (paths (rootChunk ?s))). frustumIntersect x example_camera"
    by (simp add: frustumIntersect_def example_camera_def)
  have u: "map uid ?sel = [1, 6, 11, 16]" unfolding sel by (simp add: example_root)
  have h: "map uid (hd (paths (rootChunk ?s))) = [0, 1, 2]"
    unfolding rt by (simp add: example_root)
  from t m have "box_interior (boundingBox (?sel ! 0)) \<inter> box_interior (boundingBox (?sel ! 1)) = {}"
    by blast
  moreover from t p v have "\<exists>!x. x \<in> set (hd (paths (rootChunk ?s))) \<and> x \<in> set ?sel"
    by blast
  moreover from t p v have "\<exists>x \<in> set ?sel.
      footprint (boundingBox (last (hd (paths (rootChunk ?s))))) \<subseteq> footprint (boundingBox x)"
    by blast
  ultimately show ?thesis using u h by blast
qed

section \<open>The calls of the traversal\<close>

lemma visited_unfold:
  "visited s c b cam =
     (c, b) # (if \<not> frustumIntersect c cam then []
               else if \<not> isChunkWithinLodRange s c cam b then []
               else concat (map (\<lambda>child. visited s child (b - 1) cam) (children c)))"
  by (cases c) simp

lemma visited_quadtree:
  "quadtree_of th bb level c \<Longrightarrow> b < level \<Longrightarrow> (x, k) \<in> set (visited s c b cam) \<Longrightarrow>
     \<exists>bb' level'. quadtree_of th bb' level' x \<and> k < level'"
proof (induction c arbitrary: bb level b)
  case (Chunk u bx l mn mx cs)
  let ?c = "Chunk u bx l mn mx cs"
  from Chunk.prems(3) consider "(x, k) = (?c, b)"
    | ch where "ch \<in> set cs" "(x, k) \<in> set (visited s ch (b - 1) cam)"
    by (subst (asm) visited_unfold) (auto split: if_splits)
  then show ?case
  proof cases
    case 1
    then show ?thesis using Chunk.prems(1,2) by blast
  next
    case 2
    from quadtree_of_child[OF Chunk.prems(1)] 2(1) obtain b' where
      q: "quadtree_of th b' (level - 1) ch" by auto
    show ?thesis using Chunk.IH[OF 2(1) q _ 2(2)] Chunk.prems(2) by simp
  qed
qed

lemma visited_selected:
  "(x, k) \<in> set (visited s c b cam) \<Longrightarrow> frustumIntersect x cam \<Longrightarrow>
   \<not> isChunkWithinLodRange s x cam k \<Longrightarrow> x \<in> set (traverseAndSelect s c b cam [])"
proof (induction c arbitrary: b)
  case (Chunk u bx l mn mx cs)
  let ?c = "Chunk u bx l mn mx cs"
  from Chunk.prems(1) consider "(x, k) = (?c, b)"
    | ch where "frustumIntersect ?c cam" "isChunkWithinLodRange s ?c cam b"
        "ch \<in> set cs" "(x, k) \<in> set (visited s ch (b - 1) cam)"
    by (subst (asm) visited_unfold) (auto split: if_splits)
  then show ?case
  proof cases
    case 1
    then show ?thesis using Chunk.prems(2,3) by (subst traverseAndSelect_unfold) simp
  next
    case 2
    have "x \<in> set (traverseAndSelect s ch (b - 1) cam [])"
      using Chunk.IH[OF 2(3) 2(4) Chunk.prems(2,3)] .
    then show ?thesis using 2(1,2,3) by (subst traverseAndSelect_unfold) auto
  qed
qed

lemma quadtree_of_childless:
  "quadtree_of th bb level c \<Longrightarrow> children c = [] \<Longrightarrow> level < 0"
  using quadtree_of_node[of th bb level c] by fastforce

lemma not_within_stops:
  assumes "frustumIntersect c cam" "\<not> isChunkWithinLodRange s c cam b"
  shows "traverseAndSelect s c b cam dl = dl @ [c]" and "visited s c b cam = [(c, b)]"
proof -
  have "traverseAndSelect s c b cam [] = [c]"
    using assms by (subst traverseAndSelect_unfold) simp
  then show "traverseAndSelect s c b cam dl = dl @ [c]"
    using traverseAndSelect_append[of s c b cam dl] by simp
  show "visited s c b cam = [(c, b)]"
    using assms by (subst visited_unfold) simp
qed

text \<open>
  With \<open>lodLevels \<ge> 0\<close> the traversal started by \<^verbatim>\<open>selectLods\<close> never calls
  \<^verbatim>\<open>traverseAndSelect\<close> on a childless chunk: a chunk of level 0 is reached with the band
  index \<open>-1\<close>, where the range is undefined, and is selected.
\<close>

lemma visited_level:
  "quadtree_of th bb level c \<Longrightarrow> 0 \<le> level \<Longrightarrow>
   (x, k) \<in> set (visited s c (level - 1) cam) \<Longrightarrow>
     \<exists>bb' level'. quadtree_of th bb' level' x \<and> k = level' - 1 \<and> 0 \<le> level'"
proof (induction c arbitrary: bb level)
  case (Chunk u bx l mn mx cs)
  let ?c = "Chunk u bx l mn mx cs"
  from Chunk.prems(3) consider "(x, k) = (?c, level - 1)"
    | ch where "isChunkWithinLodRange s ?c cam (level - 1)"
        "ch \<in> set cs" "(x, k) \<in> set (visited s ch (level - 1 - 1) cam)"
    by (subst (asm) visited_unfold) (auto split: if_splits)
  then show ?case
  proof cases
    case 1
    then show ?thesis using Chunk.prems(1,2) by blast
  next
    case 2
    from quadtree_of_child[OF Chunk.prems(1)] 2(2) obtain b' where
      q: "quadtree_of th b' (level - 1) ch" by auto
    have "0 \<le> level - 1" using within_index[OF 2(1)] by simp
    then show ?thesis using Chunk.IH[OF 2(2) q _ 2(3)] by simp
  qed
qed

lemma selectLods_never_visits_leaf:
  assumes "0 \<le> lodLevels (CDLOD_constructor options)"
    and "(c, b) \<in> set (visited (run options ops) (rootChunk (run options ops))
                         (lodLevels (run options ops) - 1) camera)"
  shows "children c \<noteq> []"
proof -
  let ?s = "CDLOD_constructor options"
  obtain bb where q: "quadtree_of (opt_terrainHeight options) bb (lodLevels ?s) (rootChunk ?s)"
    using constructor_quadtree by blast
  from assms(2) have "(c, b) \<in> set (visited (run options ops) (rootChunk ?s) (lodLevels ?s - 1) camera)"
    by (simp add: run_rootChunk run_lodLevels)
  from visited_level[OF q assms(1) this] obtain bb' level' where
    "quadtree_of (opt_terrainHeight options) bb' level' c" "0 \<le> level'" by blast
  then show ?thesis using quadtree_of_childless by fastforce
qed

text \<open>
  Claim C5.  In the traversal \<^verbatim>\<open>selectLods\<close> starts, every call of
  \<^verbatim>\<open>traverseAndSelect\<close> on a chunk that passes the frustum test and either lies at a
  distance of at least \<open>range[currentBand]\<close> from the camera or has no children appends
  the chunk to the draw list and goes no further: the call adds the chunk alone and makes
  no other call.
\<close>

theorem C5_out_of_range_or_leaf_selected:
  assumes "s = run options ops"
    and "(c, b) \<in> set (visited s (rootChunk s) (lodLevels s - 1) camera)"
    and "frustumIntersect c camera"
    and "(\<exists>r. array_get (lodRanges s) b = Some r
              \<and> r \<le> Distance (center (boundingBox c)) (position camera))
         \<or> children c = []"
  shows "c \<in> set (selectLods s camera)
       \<and> traverseAndSelect s c b camera drawList = drawList @ [c]
       \<and> visited s c b camera = [(c, b)]"
proof -
  let ?s0 = "CDLOD_constructor options"
  obtain bb where q: "quadtree_of (opt_terrainHeight options) bb (lodLevels ?s0) (rootChunk ?s0)"
    using constructor_quadtree by blast
  have q': "quadtree_of (opt_terrainHeight options) bb (lodLevels s) (rootChunk s)"
    using q assms(1) by (simp add: run_rootChunk run_lodLevels)
  from visited_quadtree[OF q' _ assms(2)] obtain bb' level' where
    qc: "quadtree_of (opt_terrainHeight options) bb' level' c" and k: "b < level'" by auto
  have nw: "\<not> isChunkWithinLodRange s c camera b"
    using assms(4)
  proof
    assume "\<exists>r. array_get (lodRanges s) b = Some r
              \<and> r \<le> Distance (center (boundingBox c)) (position camera)"
    then show ?thesis by (auto simp: isChunkWithinLodRange_def Let_def)
  next
    assume "children c = []"
    then have "level' < 0" using quadtree_of_childless[OF qc] by simp
    then have "b < 0" using k by simp
    then show ?thesis using within_index[of s c camera b] by auto
  qed
  have "c \<in> set (selectLods s camera)"
    unfolding selectLods_def using visited_selected[OF assms(2,3) nw] .
  then show ?thesis using not_within_stops[OF assms(3) nw] by simp
qed

lemma run_Nil: "run options [] = CDLOD_constructor options"
  by (simp add: run_def)

lemma sqrt_25: "sqrt 25 = 5"
  using real_sqrt_abs2[of 5] by simp

lemma example_root_far: "Distance (center (boundingBox (rootChunk (CDLOD_constructor example_options))))
    (position far_camera) = 5"
  by (simp add: example_root far_camera_def center_def Center_def Distance_def sqrt_25)

lemma leaf_root:
  "rootChunk (CDLOD_constructor leaf_options)
     = Chunk 0 (BoundingBox (Vector3 (-1) (-1) (-1)) (Vector3 1 1 1)) 0 0 1 []"
  by (simp add: constructor_rootChunk constructor_lodLevels leaf_options_def example_options_def
        buildQuadtree_leaf)

lemma leaf_lodLevels: "lodLevels (CDLOD_constructor leaf_options) = - 1"
  by (simp add: constructor_lodLevels leaf_options_def example_options_def)

theorem C5_out_of_range_or_leaf_selected_witness:
  "(rootChunk (run example_options []), 0)
      \<in> set (visited (run example_options []) (rootChunk (run example_options []))
                (lodLevels (run example_options []) - 1) far_camera)
   \<and> array_get (lodRanges (run example_options [])) 0 = Some 1
   \<and> 1 \<le> Distance (center (boundingBox (rootChunk (run example_options []))))
                    (position far_camera)
   \<and> rootChunk (run example_options []) \<in> set (selectLods (run example_options []) far_camera)
   \<and> visited (run example_options []) (rootChunk (run example_options [])) 0 far_camera
       = [(rootChunk (run example_options []), 0)]
   \<and> (rootChunk (run leaf_options []), - 2)
      \<in> set (visited (run leaf_options []) (rootChunk (run leaf_options []))
                (lodLevels (run leaf_options []) - 1) example_camera)
   \<and> children (rootChunk (run leaf_options [])) = []
   \<and> rootChunk (run leaf_options []) \<in> set (selectLods (run leaf_options []) example_camera)
   \<and> traverseAndSelect (run leaf_options []) (rootChunk (run leaf_options [])) (- 2)
        example_camera [] = [rootChunk (run leaf_options [])]"
proof -
  let ?s = "run example_options []"
  let ?t = "run leaf_options []"
  have a1: "(rootChunk ?s, 0) \<in> set (visited ?s (rootChunk ?s) (lodLevels ?s - 1) far_camera)"
    by (subst visited_unfold) (simp add: run_Nil example_lodLevels)
  have a2: "frustumIntersect (rootChunk ?s) far_camera"
    by (simp add: frustumIntersect_def far_camera_def)
  have a3: "array_get (lodRanges ?s) 0 = Some 1"
    by (simp add: run_Nil example_lodRanges array_get_def)
  have a4: "1 \<le> Distance (center (boundingBox (rootChunk ?s))) (position far_camera)"
    by (simp add: run_Nil example_root_far)
  have b1: "(rootChunk ?t, - 2) \<in> set (visited ?t (rootChunk ?t) (lodLevels ?t - 1) example_camera)"
    by (subst visited_unfold) (simp add: run_Nil leaf_lodLevels)
  have b2: "frustumIntersect (rootChunk ?t) example_camera"
    by (simp add: frustumIntersect_def example_camera_def)
  have b3: "children (rootChunk ?t) = []"
    by (simp add: run_Nil leaf_root)
  have A: "rootChunk ?s \<in> set (selectLods ?s far_camera)
         \<and> traverseAndSelect ?s (rootChunk ?s) 0 far_camera [] = [] @ [rootChunk ?s]
         \<and> visited ?s (rootChunk ?s) 0 far_camera = [(rootChunk ?s, 0)]"
    using a3 a4
    by (intro C5_out_of_range_or_leaf_selected[OF refl a1 a2]) blast
  have B: "rootChunk ?t \<in> set (selectLods ?t example_camera)
         \<and> traverseAndSelect ?t (rootChunk ?t) (- 2) example_camera [] = [] @ [rootChunk ?t]
         \<and> visited ?t (rootChunk ?t) (- 2) example_camera = [(rootChunk ?t, - 2)]"
    using b3
    by (intro C5_out_of_range_or_leaf_selected[OF refl b1 b2]) blast
  from A B a1 a3 a4 b1 b3 show ?thesis by simp
qed

section \<open>The mesh store\<close>

lemma updateChunkMesh_retained:
  "mesh s (uid c) \<noteq> None \<Longrightarrow> updateChunkMesh c cam s = s"
  by (auto simp: updateChunkMesh_def)

lemma updateChunkMesh_other:
  "u \<noteq> uid c \<Longrightarrow> mesh (updateChunkMesh c cam s) u = mesh s u"
  by (simp add: updateChunkMesh_def Let_def split: option.splits)

lemma updateChunkMesh_keeps:
  "mesh s u = Some m \<Longrightarrow> mesh (updateChunkMesh c cam s) u = Some m"
  by (cases "u = uid c") (simp_all add: updateChunkMesh_retained updateChunkMesh_other)

lemma updateChunkMesh_created:
  assumes "mesh s (uid c) = None"
  shows "\<exists>m. mesh (updateChunkMesh c cam s) (uid c) = Some m
           \<and> u_cameraPosition (material m) = position_ref cam
           \<and> u_lodLevel (material m) = lodLevel c
           \<and> u_lodRangesLUT (material m) = lodRanges s
           \<and> u_mesh_dim (material m) = subdivisions s"
  using assms by (simp add: updateChunkMesh_def Let_def)

lemma fold_updateChunkMesh_keeps:
  "mesh s u = Some m \<Longrightarrow>
     mesh (fold (\<lambda>chunk s'. updateChunkMesh chunk cam s') xs s) u = Some m"
  by (induction xs arbitrary: s) (simp_all add: updateChunkMesh_keeps)

lemma fold_updateChunkMesh_other:
  "u \<notin> uid ` set xs \<Longrightarrow>
     mesh (fold (\<lambda>chunk s'. updateChunkMesh chunk cam s') xs s) u = mesh s u"
  by (induction xs arbitrary: s) (simp_all add: updateChunkMesh_other)

lemma fold_updateChunkMesh_config:
  "config (fold (\<lambda>chunk s'. updateChunkMesh chunk cam s') xs s) = config s"
  by (rule fold_keeps) (simp add: config_updateChunkMesh)

lemma fold_updateChunkMesh_created:
  "distinct (map uid xs) \<Longrightarrow> c \<in> set xs \<Longrightarrow> mesh s (uid c) = None \<Longrightarrow>
     \<exists>m. mesh (fold (\<lambda>chunk s'. updateChunkMesh chunk cam s') xs s) (uid c) = Some m
        \<and> u_cameraPosition (material m) = position_ref cam
        \<and> u_lodLevel (material m) = lodLevel c
        \<and> u_lodRangesLUT (material m) = lodRanges s
        \<and> u_mesh_dim (material m) = subdivisions s"
proof (induction xs arbitrary: s)
  case Nil
  then show ?case by simp
next
  case (Cons a xs)
  show ?case
  proof (cases "c = a")
    case True
    from updateChunkMesh_created[of s a cam] Cons.prems(3) True obtain m where
      m: "mesh (updateChunkMesh a cam s) (uid a) = Some m"
         "u_cameraPosition (material m) = position_ref cam"
         "u_lodLevel (material m) = lodLevel a"
         "u_lodRangesLUT (material m) = lodRanges s"
         "u_mesh_dim (material m) = subdivisions s" by auto
    have "mesh (fold (\<lambda>chunk s'. updateChunkMesh chunk cam s') xs (updateChunkMesh a cam s)) (uid a)
        = Some m" using fold_updateChunkMesh_keeps[OF m(1)] .
    then show ?thesis using m True by simp
  next
    case False
    then have c: "c \<in> set xs" using Cons.prems(2) by simp
    then have "uid c \<in> uid ` set xs" by simp
    then have ne: "uid c \<noteq> uid a" using Cons.prems(1) by auto
    have d: "distinct (map uid xs)" using Cons.prems(1) by simp
    have n: "mesh (updateChunkMesh a cam s) (uid c) = None"
      using Cons.prems(3) ne by (simp add: updateChunkMesh_other)
    have cf: "lodRanges (updateChunkMesh a cam s) = lodRanges s"
             "subdivisions (updateChunkMesh a cam s) = subdivisions s"
      using config_updateChunkMesh[of a cam s] by (simp_all add: config_def)
    from Cons.IH[OF d c n] show ?thesis by (simp add: cf)
  qed
qed

lemma fold_updateChunkMesh_present:
  "c \<in> set xs \<Longrightarrow> mesh (fold (\<lambda>chunk s'. updateChunkMesh chunk cam s') xs s) (uid c) \<noteq> None"
proof (induction xs arbitrary: s)
  case Nil
  then show ?case by simp
next
  case (Cons a xs)
  show ?case
  proof (cases "c \<in> set xs")
    case True
    then show ?thesis using Cons.IH by simp
  next
    case False
    then have ca: "c = a" using Cons.prems by simp
    have "mesh (updateChunkMesh a cam s) (uid a) \<noteq> None"
      by (auto simp: updateChunkMesh_def Let_def split: option.splits)
    then obtain m where "mesh (updateChunkMesh a cam s) (uid a) = Some m" by blast
    from fold_updateChunkMesh_keeps[OF this] show ?thesis using ca by simp
  qed
qed

lemma fold_id: "(\<And>x. x \<in> set xs \<Longrightarrow> f x s = s) \<Longrightarrow> fold f xs s = s"
  by (induction xs) simp_all

lemma fold_preserve:
  "(\<And>y s. y \<in> set xs \<Longrightarrow> Q s \<Longrightarrow> Q (f y s)) \<Longrightarrow> Q s \<Longrightarrow> Q (fold f xs s)"
  by (induction xs arbitrary: s) simp_all

lemma fold_establish:
  "x \<in> set xs \<Longrightarrow> (\<And>s. Q (f x s)) \<Longrightarrow> (\<And>y s. y \<in> set xs \<Longrightarrow> Q s \<Longrightarrow> Q (f y s)) \<Longrightarrow>
     Q (fold f xs s)"
proof (induction xs arbitrary: s)
  case Nil
  then show ?case by simp
next
  case (Cons a xs)
  show ?case
  proof (cases "x = a")
    case True
    have "Q (f a s)" using Cons.prems(2) True by simp
    then have "Q (fold f xs (f a s))"
      by (rule fold_preserve[rotated]) (simp add: Cons.prems(3))
    then show ?thesis by simp
  next
    case False
    then have "x \<in> set xs" using Cons.prems(1) by simp
    then show ?thesis using Cons.IH[of "f a s"] Cons.prems(2,3) by simp
  qed
qed

lemma dispose_in_renderSet:
  "u \<in> R \<Longrightarrow> mesh (disposeUnusedMeshes c R s) u = mesh s u"
proof (induction c arbitrary: s)
  case (Chunk v bb l mn mx cs)
  have "mesh (fold (\<lambda>child s'. disposeUnusedMeshes child R s') cs s1) u = mesh s1 u" for s1
    by (rule fold_keeps) (simp add: Chunk.IH[OF _ Chunk.prems])
  then show ?case using Chunk.prems by (auto simp: Let_def split: option.splits)
qed

lemma dispose_keeps_None:
  "mesh s u = None \<Longrightarrow> mesh (disposeUnusedMeshes c R s) u = None"
proof (induction c arbitrary: s)
  case (Chunk v bb l mn mx cs)
  have f: "mesh s1 u = None \<Longrightarrow>
      mesh (fold (\<lambda>child s'. disposeUnusedMeshes child R s') cs s1) u = None" for s1
    by (rule fold_preserve[where Q = "\<lambda>t. mesh t u = None"]) (simp_all add: Chunk.IH)
  show ?case using Chunk.prems by (auto simp: Let_def intro!: f split: option.splits)
qed

lemma dispose_unselected:
  "x \<in> set (nodes c) \<Longrightarrow> uid x \<notin> R \<Longrightarrow> mesh (disposeUnusedMeshes c R s) (uid x) = None"
proof (induction c arbitrary: s)
  case (Chunk v bb l mn mx cs)
  let ?c = "Chunk v bb l mn mx cs"
  define s1 where "s1 = (if v \<notin> R
                then (case mesh s v of
                        Some m \<Rightarrow> s\<lparr>mesh := (mesh s)(v := None), calls := calls s @ [Dispose v]\<rparr>
                      | None \<Rightarrow> s)
                else s)"
  have d: "disposeUnusedMeshes ?c R s = fold (\<lambda>child s'. disposeUnusedMeshes child R s') cs s1"
    by (simp add: s1_def Let_def)
  from Chunk.prems(1) consider "x = ?c" | ch where "ch \<in> set cs" "x \<in> set (nodes ch)" by auto
  then show ?case
  proof cases
    case 1
    then have "mesh s1 (uid x) = None" using Chunk.prems(2) by (simp add: s1_def split: option.splits)
    then have "mesh (fold (\<lambda>child s'. disposeUnusedMeshes child R s') cs s1) (uid x) = None"
      by (rule fold_preserve[rotated]) (rule dispose_keeps_None)
    then show ?thesis unfolding d .
  next
    case 2
    have "mesh (fold (\<lambda>child s'. disposeUnusedMeshes child R s') cs s1) (uid x) = None"
    proof (rule fold_establish[where x = ch and Q = "\<lambda>t. mesh t (uid x) = None"])
      show "ch \<in> set cs" by (rule 2(1))
      show "\<And>s. mesh (disposeUnusedMeshes ch R s) (uid x) = None"
        using Chunk.IH[OF 2(1) 2(2) Chunk.prems(2)] .
      show "\<And>y s. y \<in> set cs \<Longrightarrow> mesh s (uid x) = None \<Longrightarrow>
              mesh (disposeUnusedMeshes y R s) (uid x) = None"
        by (rule dispose_keeps_None)
    qed
    then show ?thesis unfolding d .
  qed
qed

lemma dispose_nothing:
  "(\<And>x. x \<in> set (nodes c) \<Longrightarrow> uid x \<notin> R \<Longrightarrow> mesh s (uid x) = None) \<Longrightarrow>
     disposeUnusedMeshes c R s = s"
proof (induction c)
  case (Chunk v bb l mn mx cs)
  have "fold (\<lambda>child s'. disposeUnusedMeshes child R s') cs s = s"
  proof (rule fold_id)
    fix ch assume ch: "ch \<in> set cs"
    show "disposeUnusedMeshes ch R s = s"
    proof (rule Chunk.IH[OF ch])
      fix x assume "x \<in> set (nodes ch)" "uid x \<notin> R"
      then show "mesh s (uid x) = None" using Chunk.prems[of x] ch by auto
    qed
  qed
  moreover have "v \<notin> R \<Longrightarrow> mesh s v = None"
    using Chunk.prems[of "Chunk v bb l mn mx cs"] by simp
  ultimately show ?case by (auto simp: Let_def)
qed

section \<open>The per-frame update\<close>

lemma update_mesh_selected:
  assumes "c \<in> set (selectLods s cam)"
  shows "mesh (update cam s) (uid c)
       = mesh (fold (\<lambda>chunk s'. updateChunkMesh chunk cam s') (selectLods s cam) s) (uid c)"
proof -
  have "uid c \<in> set (map uid (selectLods s cam))" using assms by simp
  then show ?thesis by (simp add: update_def Let_def dispose_in_renderSet)
qed

lemma update_selectLods: "selectLods (update cam s) cam' = selectLods s cam'"
  by (rule selectLods_config) (rule config_update)

lemma update_rootChunk: "rootChunk (update cam s) = rootChunk s"
  using config_update[of cam s] by (simp add: config_def)

lemma update_unselected:
  assumes "x \<in> set (nodes (rootChunk s))" "uid x \<notin> uid ` set (selectLods s cam)"
  shows "mesh (update cam s) (uid x) = None"
proof -
  let ?s1 = "fold (\<lambda>chunk s'. updateChunkMesh chunk cam s') (selectLods s cam) s"
  have "uid x \<notin> set (map uid (selectLods s cam))" using assms(2) by simp
  then have "mesh (disposeUnusedMeshes (rootChunk s) (set (map uid (selectLods s cam))) ?s1) (uid x)
      = None" using assms(1) by (rule dispose_unselected[rotated])
  then show ?thesis by (simp add: update_def Let_def)
qed

lemma example_selectLods_uids:
  "map uid (selectLods (CDLOD_constructor example_options) example_camera) = [1, 6, 11, 16]"
  by (simp add: example_selectLods example_root)

lemma example_selectLods_moved:
  "selectLods (CDLOD_constructor example_options) moved_camera =
     children (rootChunk (CDLOD_constructor example_options))"
  by (simp add: selectLods_def example_root example_lodRanges example_lodLevels
        moved_camera_def example_camera_def frustumIntersect_def isChunkWithinLodRange_def
        array_get_def
        center_def Center_def Distance_def)

text \<open>
  Claim C9.  After a call of \<^verbatim>\<open>update\<close>, a second call with the same camera selects the
  same chunks, finds a mesh on every selected chunk (so \<^verbatim>\<open>updateChunkMesh\<close> changes
  nothing) and no mesh on any other chunk of the tree, and leaves the whole state as it
  is: no mesh is created and none is disposed of.
\<close>

theorem C9_second_update_changes_nothing:
  assumes "s1 = update camera s0"
  shows "selectLods s1 camera = selectLods s0 camera
       \<and> (\<forall>c \<in> set (selectLods s1 camera).
             mesh s1 (uid c) \<noteq> None \<and> updateChunkMesh c camera s1 = s1)
       \<and> (\<forall>c \<in> set (nodes (rootChunk s1)).
             uid c \<notin> uid ` set (selectLods s1 camera) \<longrightarrow> mesh s1 (uid c) = None)
       \<and> update camera s1 = s1
       \<and> calls (update camera s1) = calls s1"
proof -
  have sel: "selectLods s1 camera = selectLods s0 camera"
    unfolding assms by (rule update_selectLods)
  have rt: "rootChunk s1 = rootChunk s0" unfolding assms by (rule update_rootChunk)
  have present: "mesh s1 (uid c) \<noteq> None" if "c \<in> set (selectLods s1 camera)" for c
  proof -
    from that have c: "c \<in> set (selectLods s0 camera)" by (simp add: sel)
    show ?thesis unfolding assms update_mesh_selected[OF c]
      by (rule fold_updateChunkMesh_present[OF c])
  qed
  have absent: "mesh s1 (uid c) = None"
    if "c \<in> set (nodes (rootChunk s1))" "uid c \<notin> uid ` set (selectLods s1 camera)" for c
  proof -
    from that have "c \<in> set (nodes (rootChunk s0))" "uid c \<notin> uid ` set (selectLods s0 camera)"
      by (simp_all add: sel rt)
    then show ?thesis unfolding assms by (rule update_unselected)
  qed
  have noop: "updateChunkMesh c camera s1 = s1" if "c \<in> set (selectLods s1 camera)" for c
    using present[OF that] by (rule updateChunkMesh_retained)
  have f: "fold (\<lambda>chunk s'. updateChunkMesh chunk camera s') (selectLods s1 camera) s1 = s1"
    by (rule fold_id) (rule noop)
  have d: "disposeUnusedMeshes (rootChunk s1) (uid ` set (selectLods s1 camera)) s1 = s1"
    by (rule dispose_nothing) (simp add: absent)
  have id: "update camera s1 = s1"
    by (simp add: update_def Let_def f d)
  from sel present noop absent id show ?thesis by simp
qed

theorem C9_second_update_changes_nothing_witness:
  "map uid (selectLods (update example_camera (CDLOD_constructor example_options)) example_camera)
     = [1, 6, 11, 16]
   \<and> mesh (update example_camera (CDLOD_constructor example_options)) 1 \<noteq> None
   \<and> mesh (update example_camera (CDLOD_constructor example_options)) 0 = None
   \<and> update example_camera (update example_camera (CDLOD_constructor example_options))
       = update example_camera (CDLOD_constructor example_options)
   \<and> calls (update example_camera (update example_camera (CDLOD_constructor example_options)))
       = calls (update example_camera (CDLOD_constructor example_options))"
proof -
  let ?s0 = "CDLOD_constructor example_options"
  let ?s1 = "update example_camera ?s0"
  note t = C9_second_update_changes_nothing[of ?s1 example_camera ?s0, OF refl]
  have sel: "selectLods ?s1 example_camera = children (rootChunk ?s0)"
    using t example_selectLods by simp
  have u: "map uid (selectLods ?s1 example_camera) = [1, 6, 11, 16]"
    unfolding sel by (simp add: example_root)
  have c1: "hd (children (rootChunk ?s0)) \<in> set (selectLods ?s1 example_camera)"
    "uid (hd (children (rootChunk ?s0))) = 1"
    unfolding sel by (simp_all add: example_root)
  have c0: "rootChunk ?s0 \<in> set (nodes (rootChunk ?s1))" "uid (rootChunk ?s0) = 0"
    "uid (rootChunk ?s0) \<notin> uid ` set (selectLods ?s1 example_camera)"
    unfolding sel update_rootChunk by (simp_all add: example_root)
  from t c1 have "mesh ?s1 1 \<noteq> None" by metis
  moreover from t c0 have "mesh ?s1 0 = None" by metis
  ultimately show ?thesis using t u by simp
qed

lemma update_retained:
  assumes "c \<in> set (selectLods s cam)" "mesh s (uid c) = Some m"
  shows "mesh (update cam s) (uid c) = Some m"
  unfolding update_mesh_selected[OF assms(1)] using assms(2) by (rule fold_updateChunkMesh_keeps)

lemma update_created:
  assumes "distinct (map uid (selectLods s cam))" "c \<in> set (selectLods s cam)"
    "mesh s (uid c) = None"
  shows "\<exists>m. mesh (update cam s) (uid c) = Some m
           \<and> u_cameraPosition (material m) = position_ref cam
           \<and> u_lodLevel (material m) = lodLevel c
           \<and> u_lodRangesLUT (material m) = lodRanges s
           \<and> u_mesh_dim (material m) = subdivisions s"
  unfolding update_mesh_selected[OF assms(2)] using assms by (rule fold_updateChunkMesh_created)

lemma example_selectLods_other:
  "selectLods (CDLOD_constructor example_options) other_camera =
     children (rootChunk (CDLOD_constructor example_options))"
  by (simp add: selectLods_def example_root example_lodRanges example_lodLevels
        other_camera_def frustumIntersect_def isChunkWithinLodRange_def array_get_def
        center_def Center_def Distance_def)

section \<open>The object behind the cameraPosition uniform\<close>

lemma updateChunkMesh_binding:
  assumes "mesh (updateChunkMesh c cam s) u = Some m"
  shows "mesh s u = Some m \<or> u_cameraPosition (material m) = position_ref cam"
proof (cases "mesh s (uid c)")
  case None
  show ?thesis
  proof (cases "u = uid c")
    case True
    from updateChunkMesh_created[OF None, of cam] assms True show ?thesis by auto
  next
    case False
    then show ?thesis using assms by (simp add: updateChunkMesh_other)
  qed
next
  case (Some a)
  then show ?thesis using assms by (simp add: updateChunkMesh_retained)
qed

lemma updateChunkMesh_bound:
  assumes "position_ref cam = r"
    and "\<And>u m. mesh s u = Some m \<Longrightarrow> u_cameraPosition (material m) = r"
    and "mesh (updateChunkMesh c cam s) u = Some m"
  shows "u_cameraPosition (material m) = r"
  using updateChunkMesh_binding[OF assms(3)] assms(1,2) by auto

lemma fold_updateChunkMesh_bound:
  assumes "position_ref cam = r"
    and "\<forall>u m. mesh s u = Some m \<longrightarrow> u_cameraPosition (material m) = r"
  shows "\<forall>u m. mesh (fold (\<lambda>chunk s'. updateChunkMesh chunk cam s') xs s) u = Some m
           \<longrightarrow> u_cameraPosition (material m) = r"
proof (rule fold_preserve[where Q = "\<lambda>t::CDLOD. \<forall>u m. mesh t u = Some m \<longrightarrow> u_cameraPosition (material m) = r"])
  show "\<forall>u m. mesh s u = Some m \<longrightarrow> u_cameraPosition (material m) = r" by (rule assms(2))
next
  fix y and t :: CDLOD
  assume "\<forall>u m. mesh t u = Some m \<longrightarrow> u_cameraPosition (material m) = r"
  then show "\<forall>u m. mesh (updateChunkMesh y cam t) u = Some m \<longrightarrow> u_cameraPosition (material m) = r"
    using updateChunkMesh_bound[OF assms(1), of t y] by blast
qed

lemma dispose_mesh_cases:
  "mesh (disposeUnusedMeshes c R s) u = None \<or> mesh (disposeUnusedMeshes c R s) u = mesh s u"
proof (induction c arbitrary: s)
  case (Chunk v bb l mn mx cs)
  define s1 where "s1 = (if v \<notin> R
                then (case mesh s v of
                        Some m \<Rightarrow> s\<lparr>mesh := (mesh s)(v := None), calls := calls s @ [Dispose v]\<rparr>
                      | None \<Rightarrow> s)
                else s)"
  have d: "disposeUnusedMeshes (Chunk v bb l mn mx cs) R s
      = fold (\<lambda>child s'. disposeUnusedMeshes child R s') cs s1"
    by (simp add: s1_def Let_def)
  have s1u: "mesh s1 u = None \<or> mesh s1 u = mesh s u"
    by (auto simp: s1_def split: option.splits)
  have "mesh (fold (\<lambda>child s'. disposeUnusedMeshes child R s') cs s1) u = None
      \<or> mesh (fold (\<lambda>child s'. disposeUnusedMeshes child R s') cs s1) u = mesh s u"
  proof (rule fold_preserve[where Q = "\<lambda>t::CDLOD. mesh t u = None \<or> mesh t u = mesh s u"])
    show "mesh s1 u = None \<or> mesh s1 u = mesh s u" by (rule s1u)
  next
    fix y and t :: CDLOD
    assume y: "y \<in> set cs" and h: "mesh t u = None \<or> mesh t u = mesh s u"
    from Chunk.IH[OF y, of t] h
    show "mesh (disposeUnusedMeshes y R t) u = None \<or> mesh (disposeUnusedMeshes y R t) u = mesh s u"
      by auto
  qed
  then show ?case unfolding d .
qed

lemma dispose_removes_only:
  "mesh (disposeUnusedMeshes c R s) u = Some m \<Longrightarrow> mesh s u = Some m"
  using dispose_mesh_cases[of c R s u] by auto

lemma update_bound:
  assumes "position_ref cam = r"
    and "\<forall>u m. mesh s u = Some m \<longrightarrow> u_cameraPosition (material m) = r"
  shows "\<forall>u m. mesh (update cam s) u = Some m \<longrightarrow> u_cameraPosition (material m) = r"
  using fold_updateChunkMesh_bound[OF assms, of "selectLods s cam"] dispose_removes_only
  unfolding update_def Let_def by blast

lemma applyMixFactor_binding:
  "map_option (\<lambda>m. u_cameraPosition (material m)) (mesh (applyMixFactor f c s) u)
     = map_option (\<lambda>m. u_cameraPosition (material m)) (mesh s u)"
proof (induction c arbitrary: s)
  case (Chunk v bb l mn mx cs)
  have "map_option (\<lambda>m. u_cameraPosition (material m))
          (mesh (fold (\<lambda>child s'. applyMixFactor f child s') cs s1) u)
      = map_option (\<lambda>m. u_cameraPosition (material m)) (mesh s1 u)" for s1
    by (rule fold_keeps[where g = "\<lambda>t::CDLOD. map_option (\<lambda>m. u_cameraPosition (material m)) (mesh t u)"])
       (simp add: Chunk.IH)
  then show ?case by (simp add: Let_def split: option.splits)
qed

lemma applyWireframe_binding:
  "map_option (\<lambda>m. u_cameraPosition (material m)) (mesh (applyWireframe e c s) u)
     = map_option (\<lambda>m. u_cameraPosition (material m)) (mesh s u)"
proof (induction c arbitrary: s)
  case (Chunk v bb l mn mx cs)
  have "map_option (\<lambda>m. u_cameraPosition (material m))
          (mesh (fold (\<lambda>child s'. applyWireframe e child s') cs s1) u)
      = map_option (\<lambda>m. u_cameraPosition (material m)) (mesh s1 u)" for s1
    by (rule fold_keeps[where g = "\<lambda>t::CDLOD. map_option (\<lambda>m. u_cameraPosition (material m)) (mesh t u)"])
       (simp add: Chunk.IH)
  then show ?case by (simp add: Let_def split: option.splits)
qed

lemma applyBoundingBox_binding:
  "map_option (\<lambda>m. u_cameraPosition (material m)) (mesh (applyBoundingBox e c s) u)
     = map_option (\<lambda>m. u_cameraPosition (material m)) (mesh s u)"
proof (induction c arbitrary: s)
  case (Chunk v bb l mn mx cs)
  have "map_option (\<lambda>m. u_cameraPosition (material m))
          (mesh (fold (\<lambda>child s'. applyBoundingBox e child s') cs s1) u)
      = map_option (\<lambda>m. u_cameraPosition (material m)) (mesh s1 u)" for s1
    by (rule fold_keeps[where g = "\<lambda>t::CDLOD. map_option (\<lambda>m. u_cameraPosition (material m)) (mesh t u)"])
       (simp add: Chunk.IH)
  then show ?case by (simp add: Let_def split: option.splits)
qed

lemma binding_bound:
  assumes "\<And>u. map_option (\<lambda>m. u_cameraPosition (material m)) (mesh t u)
               = map_option (\<lambda>m. u_cameraPosition (material m)) (mesh s u)"
    and "\<forall>u m. mesh s u = Some m \<longrightarrow> u_cameraPosition (material m) = r"
  shows "\<forall>u m. mesh t u = Some m \<longrightarrow> u_cameraPosition (material m) = r"
proof (intro allI impI)
  fix u m assume m: "mesh t u = Some m"
  with assms(1)[of u] obtain m' where "mesh s u = Some m'"
    "u_cameraPosition (material m') = u_cameraPosition (material m)"
    by (cases "mesh s u") auto
  then show "u_cameraPosition (material m) = r" using assms(2) by auto
qed

lemma apply_operation_bound:
  assumes "\<forall>cam \<in> set (operation_cameras op). position_ref cam = r"
    and "\<forall>u m. mesh s u = Some m \<longrightarrow> u_cameraPosition (material m) = r"
  shows "\<forall>u m. mesh (apply_operation s op) u = Some m \<longrightarrow> u_cameraPosition (material m) = r"
proof (cases op)
  case (Update cam)
  then show ?thesis using update_bound[of cam r s] assms by simp
next
  case (UpdateChunkMesh c cam)
  then show ?thesis using updateChunkMesh_bound[of cam r s c] assms by auto
next
  case (SetMixFactor f)
  show ?thesis unfolding SetMixFactor apply_operation.simps setMixFactor_def
    by (rule binding_bound[OF applyMixFactor_binding assms(2)])
next
  case (SetWireframe e)
  have "\<forall>u m. mesh (s\<lparr>showChunk := e\<rparr>) u = Some m \<longrightarrow> u_cameraPosition (material m) = r"
    using assms(2) by simp
  then show ?thesis unfolding SetWireframe apply_operation.simps setWireframe_def
    by (rule binding_bound[OF applyWireframe_binding])
next
  case (SetBoundingBox e)
  have "\<forall>u m. mesh (s\<lparr>showBoundingBox := e\<rparr>) u = Some m \<longrightarrow> u_cameraPosition (material m) = r"
    using assms(2) by simp
  then show ?thesis unfolding SetBoundingBox apply_operation.simps setBoundingBox_def
    by (rule binding_bound[OF applyBoundingBox_binding])
qed

lemma foldl_bound:
  "\<forall>cam \<in> set (concat (map operation_cameras ops)). position_ref cam = r \<Longrightarrow>
   \<forall>u m. mesh s u = Some m \<longrightarrow> u_cameraPosition (material m) = r \<Longrightarrow>
     \<forall>u m. mesh (foldl apply_operation s ops) u = Some m \<longrightarrow> u_cameraPosition (material m) = r"
proof (induction ops arbitrary: s)
  case Nil
  then show ?case by simp
next
  case (Cons op ops)
  have 1: "\<forall>cam \<in> set (operation_cameras op). position_ref cam = r" using Cons.prems(1) by simp
  have 2: "\<forall>cam \<in> set (concat (map operation_cameras ops)). position_ref cam = r"
    using Cons.prems(1) by simp
  show ?case using Cons.IH[OF 2 apply_operation_bound[OF 1 Cons.prems(2)]] by simp
qed

lemma run_bound:
  assumes "\<forall>cam \<in> set (concat (map operation_cameras ops)). position_ref cam = r"
    and "mesh (run options ops) u = Some m"
  shows "u_cameraPosition (material m) = r"
proof -
  have "\<forall>u m. mesh (CDLOD_constructor options) u = Some m \<longrightarrow> u_cameraPosition (material m) = r"
    by (simp add: constructor_scalars)
  from foldl_bound[OF assms(1) this] assms(2) show ?thesis by (simp add: run_def)
qed


text \<open>
  Claim C10 states that after every call of \<^verbatim>\<open>update\<close> the \<open>cameraPosition\<close> uniform of
  every selected chunk reflects the camera of that call.  On the small terrain, a first
  call with the camera at the centre creates the mesh of the chunk of identity 1; a second
  call with another camera, at \<open>(1/4, 0, 0)\<close>, selects the chunk again and leaves its uniform
  bound to the position object of the first camera, which still holds \<open>(0, 0, 0)\<close>.
\<close>

theorem C10_counterexample:
  "map uid (selectLods (run example_options [Update example_camera, Update other_camera])
              other_camera) = [1, 6, 11, 16]
   \<and> store_with_other (position_ref other_camera) = position other_camera
   \<and> position other_camera = Vector3 (1/4) 0 0
   \<and> map_option (read_cameraPosition store_with_other)
        (mesh (run example_options [Update example_camera, Update other_camera]) 1)
       = Some (Vector3 0 0 0)"
proof -
  let ?s0 = "CDLOD_constructor example_options"
  let ?s1 = "update example_camera ?s0"
  let ?s2 = "update other_camera ?s1"
  let ?c = "hd (children (rootChunk ?s0))"
  have r: "run example_options [Update example_camera, Update other_camera] = ?s2"
    by (simp add: run_def)
  have c: "uid ?c = 1" "?c \<in> set (selectLods ?s0 example_camera)"
    "?c \<in> set (selectLods ?s1 other_camera)"
    by (simp_all add: update_selectLods example_selectLods example_selectLods_other example_root)
  have d: "distinct (map uid (selectLods ?s0 example_camera))"
    by (simp add: example_selectLods_uids)
  have n: "mesh ?s0 (uid ?c) = None" by (simp add: constructor_scalars)
  from update_created[OF d c(2) n] obtain m where
    m: "mesh ?s1 (uid ?c) = Some m" "u_cameraPosition (material m) = position_ref example_camera"
    by blast
  have "mesh ?s2 (uid ?c) = Some m" using update_retained[OF c(3) m(1)] .
  then have "map_option (read_cameraPosition store_with_other) (mesh ?s2 1) = Some (Vector3 0 0 0)"
    using m(2) c(1)
    by (simp add: read_cameraPosition_def store_with_other_def example_camera_def)
  moreover have "map uid (selectLods ?s2 other_camera) = [1, 6, 11, 16]"
    by (simp add: update_selectLods example_selectLods_other example_root)
  ultimately show ?thesis unfolding r by (simp add: other_camera_def store_with_other_def)
qed

text \<open>
  Claim C10, amended.  After a call of \<^verbatim>\<open>update\<close> on a state reached from the
  constructor, every selected chunk holds a mesh.  The uniforms of a mesh are bound by the
  call that creates it and by no later one: a chunk without a mesh gets one whose
  \<open>lodLevel\<close>, \<open>lodRangesLUT\<close> and \<open>mesh_dim\<close> are those of this call and whose
  \<open>cameraPosition\<close> is the position object of this call's camera, and the mesh of a chunk
  that already holds one is left as it is.  When every call so far was made with this
  position object (one camera, moved in place), the \<open>cameraPosition\<close> read from the mesh
  of every selected chunk, retained or not, is the position of the camera of this call.
\<close>

theorem C10_uniforms_bound_at_creation:
  assumes "s = run options ops" and "s' = update camera s"
    and "c \<in> set (selectLods s camera)"
  shows "c \<in> set (selectLods s' camera)
       \<and> mesh s' (uid c) \<noteq> None
       \<and> (mesh s (uid c) = None \<longrightarrow>
            (\<exists>m. mesh s' (uid c) = Some m
               \<and> u_cameraPosition (material m) = position_ref camera
               \<and> u_lodLevel (material m) = lodLevel c
               \<and> u_lodRangesLUT (material m) = lodRanges s
               \<and> u_mesh_dim (material m) = subdivisions s))
       \<and> (mesh s (uid c) \<noteq> None \<longrightarrow> mesh s' (uid c) = mesh s (uid c))
       \<and> ((\<forall>cam \<in> set (concat (map operation_cameras ops)).
               position_ref cam = position_ref camera)
            \<and> store (position_ref camera) = position camera \<longrightarrow>
            (\<exists>m. mesh s' (uid c) = Some m
               \<and> u_cameraPosition (material m) = position_ref camera
               \<and> read_cameraPosition store m = position camera))"
proof -
  let ?s0 = "CDLOD_constructor options"
  have sel0: "selectLods s camera = traverseAndSelect ?s0 (rootChunk ?s0) (lodLevels ?s0 - 1) camera []"
    using run_selectLods[of options ops camera] assms(1) by (simp only: selectLods_def)
  have d: "distinct (map uid (selectLods s camera))"
    unfolding sel0 by (rule traverseAndSelect_distinct[OF constructor_distinct])
  have m: "mesh s' (uid c)
      = mesh (fold (\<lambda>chunk s'. updateChunkMesh chunk camera s') (selectLods s camera) s) (uid c)"
    unfolding assms(2) by (rule update_mesh_selected[OF assms(3)])
  have 1: "c \<in> set (selectLods s' camera)"
    using assms(3) unfolding assms(2) update_selectLods .
  have 2: "mesh s' (uid c) \<noteq> None"
    unfolding m by (rule fold_updateChunkMesh_present[OF assms(3)])
  have 3: "mesh s (uid c) = None \<longrightarrow>
            (\<exists>m. mesh s' (uid c) = Some m
               \<and> u_cameraPosition (material m) = position_ref camera
               \<and> u_lodLevel (material m) = lodLevel c
               \<and> u_lodRangesLUT (material m) = lodRanges s
               \<and> u_mesh_dim (material m) = subdivisions s)"
    unfolding m using fold_updateChunkMesh_created[OF d assms(3)] by blast
  have 4: "mesh s (uid c) \<noteq> None \<longrightarrow> mesh s' (uid c) = mesh s (uid c)"
    unfolding m using fold_updateChunkMesh_keeps by fastforce
  have 5: "(\<forall>cam \<in> set (concat (map operation_cameras ops)).
               position_ref cam = position_ref camera)
            \<and> store (position_ref camera) = position camera \<longrightarrow>
            (\<exists>m. mesh s' (uid c) = Some m
               \<and> u_cameraPosition (material m) = position_ref camera
               \<and> read_cameraPosition store m = position camera)"
  proof
    assume a: "(\<forall>cam \<in> set (concat (map operation_cameras ops)).
               position_ref cam = position_ref camera)
            \<and> store (position_ref camera) = position camera"
    from 2 obtain m' where m': "mesh s' (uid c) = Some m'" by blast
    have s': "s' = run options (ops @ [Update camera])"
      by (simp add: assms(1,2) run_def)
    have "\<forall>cam \<in> set (concat (map operation_cameras (ops @ [Update camera]))).
            position_ref cam = position_ref camera" using a by simp
    from run_bound[OF this m'[unfolded s']]
    have b: "u_cameraPosition (material m') = position_ref camera" .
    then have "read_cameraPosition store m' = position camera"
      using a by (simp add: read_cameraPosition_def)
    with m' b show "\<exists>m. mesh s' (uid c) = Some m
               \<and> u_cameraPosition (material m) = position_ref camera
               \<and> read_cameraPosition store m = position camera" by blast
  qed
  from 1 2 3 4 5 show ?thesis by blast
qed

theorem C10_uniforms_bound_at_creation_witness:
  "hd (children (rootChunk (CDLOD_constructor example_options)))
      \<in> set (selectLods (run example_options []) example_camera)
   \<and> mesh (run example_options []) 1 = None
   \<and> map_option (\<lambda>m. u_cameraPosition (material m))
        (mesh (update example_camera (run example_options [])) 1)
       = Some (position_ref example_camera)
   \<and> hd (children (rootChunk (CDLOD_constructor example_options)))
      \<in> set (selectLods (run example_options [Update example_camera]) moved_camera)
   \<and> mesh (run example_options [Update example_camera]) 1 \<noteq> None
   \<and> mesh (update moved_camera (run example_options [Update example_camera])) 1
       = mesh (run example_options [Update example_camera]) 1
   \<and> position_ref moved_camera = position_ref example_camera
   \<and> store_after_move (position_ref moved_camera) = position moved_camera
   \<and> map_option (read_cameraPosition store_after_move)
        (mesh (update moved_camera (run example_options [Update example_camera])) 1)
       = Some (position moved_camera)"
proof -
  let ?s0 = "run example_options []"
  let ?s1 = "run example_options [Update example_camera]"
  let ?c = "hd (children (rootChunk (CDLOD_constructor example_options)))"
  have s1: "?s1 = update example_camera ?s0" by (simp add: run_def)
  have u: "uid ?c = 1" by (simp add: example_root)
  have a: "?c \<in> set (selectLods ?s0 example_camera)"
    by (simp add: run_Nil example_selectLods example_root)
  have b: "?c \<in> set (selectLods ?s1 moved_camera)"
    by (simp add: run_selectLods example_selectLods_moved example_root)
  have n: "mesh ?s0 1 = None" by (simp add: run_Nil constructor_scalars)
  have r: "position_ref moved_camera = position_ref example_camera"
    by (simp add: moved_camera_def)
  have h: "store_after_move (position_ref moved_camera) = position moved_camera"
    by (simp add: moved_camera_def store_after_move_def)
  have cams: "\<forall>cam \<in> set (concat (map operation_cameras [Update example_camera])).
      position_ref cam = position_ref moved_camera" by (simp add: r)
  note A = C10_uniforms_bound_at_creation[of ?s0 example_options "[]" _ example_camera ?c,
              OF refl refl a]
  note B = C10_uniforms_bound_at_creation[of ?s1 example_options "[Update example_camera]" _
              moved_camera ?c store_after_move, OF refl refl b]
  from A n u have A': "map_option (\<lambda>m. u_cameraPosition (material m))
        (mesh (update example_camera ?s0) 1) = Some (position_ref example_camera)"
    by auto
  from A u have p: "mesh ?s1 1 \<noteq> None" unfolding s1 by simp
  from B p u have B': "mesh (update moved_camera ?s1) 1 = mesh ?s1 1" by simp
  note B5 = B[THEN conjunct2, THEN conjunct2, THEN conjunct2, THEN conjunct2]
  from B5[THEN mp, OF conjI[OF cams h]] obtain m where
    m: "mesh (update moved_camera ?s1) (uid ?c) = Some m"
       "read_cameraPosition store_after_move m = position moved_camera"
    by (elim exE conjE)
  have B'': "map_option (read_cameraPosition store_after_move)
        (mesh (update moved_camera ?s1) 1) = Some (position moved_camera)"
    using m u by simp
  from a n A' b p B' r h B'' show ?thesis by simp
qed

section \<open>The range table and the shader\<close>

lemma main_lodLevels: "lodLevels (CDLOD_constructor main_options) = 7"
  by (simp add: constructor_lodLevels main_options_def)

lemma main_lodRanges:
  "lodRanges (CDLOD_constructor main_options) = map (\<lambda>k. 2000 / 15 * 2 ^ k) [0..<7]"
  by (simp add: constructor_lodRanges main_lodLevels) (simp add: main_options_def)

lemma main_root:
  "boundingBox (rootChunk (CDLOD_constructor main_options))
     = BoundingBox (Vector3 (- 1000) (- 1000) (- 1000)) (Vector3 1000 1000 1000)"
  "lodLevel (rootChunk (CDLOD_constructor main_options)) = 7"
proof -
  let ?bb = "BoundingBox (Vector3 (- opt_terrainSize main_options * 0.5)
      (- opt_terrainSize main_options * 0.5) (- opt_terrainSize main_options * 0.5))
      (Vector3 (opt_terrainSize main_options * 0.5) (opt_terrainSize main_options * 0.5)
        (opt_terrainSize main_options * 0.5))"
  have q: "quadtree_of (opt_terrainHeight main_options) ?bb 7
             (rootChunk (CDLOD_constructor main_options))"
    unfolding constructor_rootChunk main_lodLevels by (rule buildQuadtree_shape)
  show "boundingBox (rootChunk (CDLOD_constructor main_options))
     = BoundingBox (Vector3 (- 1000) (- 1000) (- 1000)) (Vector3 1000 1000 1000)"
    using quadtree_of_box[OF q] by (simp add: main_options_def)
  show "lodLevel (rootChunk (CDLOD_constructor main_options)) = 7"
    using quadtree_of_node[OF q] by auto
qed

lemma sqrt_9000: "sqrt 81000000 = 9000"
  using real_sqrt_abs2[of 9000] by simp

lemma main_selectLods:
  "selectLods (CDLOD_constructor main_options) high_camera
     = [rootChunk (CDLOD_constructor main_options)]"
proof -
  have "\<not> isChunkWithinLodRange (CDLOD_constructor main_options)
          (rootChunk (CDLOD_constructor main_options)) high_camera 6"
    by (simp add: isChunkWithinLodRange_def main_lodRanges array_get_def main_root center_def
          Center_def Distance_def high_camera_def sqrt_9000)
  moreover have "frustumIntersect (rootChunk (CDLOD_constructor main_options)) high_camera"
    by (simp add: frustumIntersect_def high_camera_def)
  ultimately show ?thesis
    unfolding selectLods_def main_lodLevels
    by (subst traverseAndSelect_unfold) simp
qed

text \<open>
  Claim C2 on the configuration of \<^verbatim>\<open>main.ts\<close>.  The range table has 7 entries and the
  uniform array of the shader 6.  Seen from 9000 units above the centre, the root is
  selected; its mesh is bound with \<open>lodLevel = 7\<close> and the table of 7 entries, and
  \<^verbatim>\<open>getMorphValue\<close> at \<open>lodLevel = 7\<close> reads outside the array.
\<close>

theorem C2_default_table_exceeds_shader_array:
  "length (lodRanges (CDLOD_constructor main_options)) = 7
   \<and> NUM_LOD_LEVELS = 6
   \<and> length (lodRangesLUT_uniform (lodRanges (CDLOD_constructor main_options))) = 6
   \<and> selectLods (CDLOD_constructor main_options) high_camera
       = [rootChunk (CDLOD_constructor main_options)]
   \<and> map_option (\<lambda>m. u_lodLevel (material m))
        (mesh (update high_camera (CDLOD_constructor main_options))
              (uid (rootChunk (CDLOD_constructor main_options)))) = Some 7
   \<and> map_option (\<lambda>m. length (u_lodRangesLUT (material m)))
        (mesh (update high_camera (CDLOD_constructor main_options))
              (uid (rootChunk (CDLOD_constructor main_options)))) = Some 7
   \<and> getMorphValue (lodRangesLUT_uniform (lodRanges (CDLOD_constructor main_options))) 9000 7
       = Inl IndexOutOfRange"
proof -
  let ?s = "CDLOD_constructor main_options"
  have len: "length (lodRanges ?s) = 7" by (simp add: main_lodRanges)
  have lut: "length (lodRangesLUT_uniform (lodRanges ?s)) = 6"
    by (simp add: lodRangesLUT_uniform_def NUM_LOD_LEVELS_def len)
  have d: "distinct (map uid (selectLods ?s high_camera))" by (simp add: main_selectLods)
  have c: "rootChunk ?s \<in> set (selectLods ?s high_camera)" by (simp add: main_selectLods)
  have n: "mesh ?s (uid (rootChunk ?s)) = None" by (simp add: constructor_scalars)
  from update_created[OF d c n] obtain m where
    m: "mesh (update high_camera ?s) (uid (rootChunk ?s)) = Some m"
       "u_lodLevel (material m) = lodLevel (rootChunk ?s)"
       "u_lodRangesLUT (material m) = lodRanges ?s" by blast
  have g: "getMorphValue (lodRangesLUT_uniform (lodRanges ?s)) 9000 7 = Inl IndexOutOfRange"
    by (simp add: getMorphValue_def lut_read_def lut glsl_int_def)
  show ?thesis using len lut m g main_root(2) main_selectLods
    by (simp add: NUM_LOD_LEVELS_def)
qed

end
